theory Spec2Isabelle
  imports Complex_Main
begin

section \<open>JavaScript strings\<close>

text \<open>
  A JavaScript string is a sequence of UTF-16 code units. A code unit is modelled as a
  natural number, so every JavaScript string is a \<open>jsstring\<close>; the theorems below hold
  for every list of naturals and hence for every string the code can receive.
  ASCII pieces of a literal are written with \<open>str\<close>; the accented letters of the
  source are spliced in as code units (\<open>0xD3\<close> is the capital O with acute accent).
\<close>

type_synonym jschar = nat
type_synonym jsstring = "jschar list"

definition str :: "string \<Rightarrow> jsstring" where
  "str s = map of_char s"

text \<open>WhiteSpace and LineTerminator of ECMAScript: what \<open>\s\<close> matches and \<open>trim\<close> strips.\<close>

definition isWhiteSpace :: "jschar \<Rightarrow> bool" where
  "isWhiteSpace c \<longleftrightarrow>
     c = 9 \<or> c = 10 \<or> c = 11 \<or> c = 12 \<or> c = 13 \<or> c = 32 \<or> c = 160 \<or> c = 5760 \<or>
     (8192 \<le> c \<and> c \<le> 8202) \<or> c = 8232 \<or> c = 8233 \<or> c = 8239 \<or> c = 8287 \<or>
     c = 12288 \<or> c = 65279"

definition isDigit :: "jschar \<Rightarrow> bool" where
  "isDigit c \<longleftrightarrow> 48 \<le> c \<and> c \<le> 57"

definition isLineTerminator :: "jschar \<Rightarrow> bool" where
  "isLineTerminator c \<longleftrightarrow> c = 10 \<or> c = 13 \<or> c = 8232 \<or> c = 8233"

text \<open>\<open>String.prototype.trim\<close>.\<close>

definition trim :: "jsstring \<Rightarrow> jsstring" where
  "trim s = rev (dropWhile isWhiteSpace (rev (dropWhile isWhiteSpace s)))"

text \<open>
  \<open>toUpperCase\<close> of one code unit, as the case-insensitive matcher uses it. The table
  covers Basic Latin and Latin-1 Supplement, where every character of the patterns of
  this program lives; a code unit above \<open>0xFF\<close> is left as it is. No character above
  \<open>0xFF\<close> has an upper case in the Latin-1 Supplement, and the rule of \<open>canonicalize\<close>
  below keeps non-ASCII characters from folding into ASCII, so whether a code unit matches a
  character of these patterns is what the ECMAScript algorithm computes.
  The sharp s (\<open>0xDF\<close>) has a two-letter upper case and stays unchanged.
\<close>

definition toUpperCase :: "jschar \<Rightarrow> jschar" where
  "toUpperCase c =
     (if 97 \<le> c \<and> c \<le> 122 then c - 32
      else if c = 181 then 924
      else if c = 255 then 376
      else if 224 \<le> c \<and> c \<le> 254 \<and> c \<noteq> 247 then c - 32
      else c)"

text \<open>
  \<open>Canonicalize(ch)\<close> of the ECMAScript regular expression semantics, without the
  \<open>u\<close> flag: identity unless \<open>ignoreCase\<close>; otherwise the upper case, except that a
  non-ASCII character never canonicalizes to an ASCII one.
\<close>

definition canonicalize :: "bool \<Rightarrow> jschar \<Rightarrow> jschar" where
  "canonicalize ic c =
     (if ic then (let cu = toUpperCase c in if 128 \<le> c \<and> cu < 128 then c else cu)
      else c)"

section \<open>The regular expressions of the program\<close>

text \<open>
  The patterns of the source are kept as data and run by one matcher. The fragment is the
  one the source uses: literal text, character classes, \<open>.\<close>, \<open>^\<close>, \<open>$\<close>,
  sequence, alternative, an optional group \<open>(?:r)?\<close>, a quantifier on a single-character
  atom (greedy or lazy, \<open>{lo,hi}\<close>), a capture group and a lookahead \<open>(?=r)\<close>.
\<close>

datatype citem = Chr jschar | Range jschar jschar | ClsSpace | ClsNotSpace | ClsDigit

datatype atom = Cls "citem list" | Dot

datatype regex =
    Lit jsstring
  | Atom atom
  | Bol
  | Eol
  | Seq regex regex
  | Alt regex regex
  | Opt regex
  | Rep atom nat "nat option" bool
  | Group nat regex
  | Look regex

text \<open>A regular expression object: the pattern and its \<open>i\<close> flag (no pattern of the
  source has the \<open>g\<close>, \<open>y\<close>, \<open>m\<close>, \<open>s\<close> or \<open>u\<close> flag).\<close>

datatype regexp = RegExp regex bool

fun cat :: "regex list \<Rightarrow> regex" where
  "cat [] = Lit []"
| "cat [r] = r"
| "cat (r # rs) = Seq r (cat rs)"

text \<open>
  A character matches a class when the class has a member with the same canonical form.
  The members of \<open>\s\<close> and \<open>\d\<close> have no case, and no other character folds onto
  one of them, so these two test the character itself (lemmas \<open>space_caseless\<close> and
  \<open>digit_caseless\<close>); \<open>\S\<close> contains the character itself whenever it is not a space.
\<close>

fun citem_matches :: "bool \<Rightarrow> citem \<Rightarrow> jschar \<Rightarrow> bool" where
  "citem_matches ic (Chr a) c = (canonicalize ic a = canonicalize ic c)"
| "citem_matches ic (Range lo hi) c =
     list_ex (\<lambda>a. canonicalize ic a = canonicalize ic c) [lo ..< Suc hi]"
| "citem_matches ic ClsSpace c = isWhiteSpace c"
| "citem_matches ic ClsNotSpace c = (\<not> isWhiteSpace c)"
| "citem_matches ic ClsDigit c = isDigit c"

fun atom_matches :: "bool \<Rightarrow> atom \<Rightarrow> jschar \<Rightarrow> bool" where
  "atom_matches ic (Cls its) c = list_ex (\<lambda>it. citem_matches ic it c) its"
| "atom_matches ic Dot c = (\<not> isLineTerminator c)"

fun lit_matches :: "bool \<Rightarrow> jsstring \<Rightarrow> jsstring \<Rightarrow> bool" where
  "lit_matches ic [] cs = True"
| "lit_matches ic (a # as) [] = False"
| "lit_matches ic (a # as) (c # cs) =
     (canonicalize ic a = canonicalize ic c \<and> lit_matches ic as cs)"

text \<open>
  The state of a match: the index reached, the input from there on, and the captures
  (\<open>None\<close> is \<open>undefined\<close>).
\<close>

record mstate =
  pos :: nat
  rest :: jsstring
  caps :: "nat \<Rightarrow> jsstring option"

definition advance :: "nat \<Rightarrow> mstate \<Rightarrow> mstate" where
  "advance k s = s\<lparr>pos := pos s + k, rest := drop k (rest s)\<rparr>"

definition run :: "bool \<Rightarrow> atom \<Rightarrow> nat option \<Rightarrow> jsstring \<Rightarrow> nat" where
  "run ic a hi cs =
     (let n = length (takeWhile (atom_matches ic a) cs)
      in case hi of None \<Rightarrow> n | Some h \<Rightarrow> min h n)"

text \<open>
  The backtracking matcher of ECMAScript, as the list of the states in which a pattern
  can end, in the order in which backtracking tries them: the engine's result is the first
  state of the list that lets the rest of the pattern match. A greedy quantifier tries the
  longest run first, a lazy one the shortest; an optional group tries its body first and
  refuses an empty iteration; a lookahead keeps the position and the captures of the first
  way its body matches.
\<close>

fun matcher :: "bool \<Rightarrow> regex \<Rightarrow> mstate \<Rightarrow> mstate list" where
  "matcher ic (Lit w) s = (if lit_matches ic w (rest s) then [advance (length w) s] else [])"
| "matcher ic (Atom a) s =
     (case rest s of [] \<Rightarrow> [] | c # cs \<Rightarrow> if atom_matches ic a c then [advance 1 s] else [])"
| "matcher ic Bol s = (if pos s = 0 then [s] else [])"
| "matcher ic Eol s = (if rest s = [] then [s] else [])"
| "matcher ic (Seq r1 r2) s = concat (map (matcher ic r2) (matcher ic r1 s))"
| "matcher ic (Alt r1 r2) s = matcher ic r1 s @ matcher ic r2 s"
| "matcher ic (Opt r) s = filter (\<lambda>s'. pos s' \<noteq> pos s) (matcher ic r s) @ [s]"
| "matcher ic (Rep a lo hi greedy) s =
     (let ks = [lo ..< Suc (run ic a hi (rest s))]
      in map (\<lambda>k. advance k s) (if greedy then rev ks else ks))"
| "matcher ic (Group n r) s =
     map (\<lambda>s'. s'\<lparr>caps := (caps s')(n \<mapsto> take (pos s' - pos s) (rest s))\<rparr>) (matcher ic r s)"
| "matcher ic (Look r) s =
     (case matcher ic r s of [] \<Rightarrow> [] | s' # _ \<Rightarrow> [s\<lparr>caps := caps s'\<rparr>])"

text \<open>
  \<open>RegExp.prototype.exec\<close> for a pattern without \<open>g\<close> and \<open>y\<close>: the search starts at
  index 0 and tries every start index up to the length of the input; the first index at
  which the pattern matches gives the result.
\<close>

fun exec_from :: "bool \<Rightarrow> regex \<Rightarrow> nat \<Rightarrow> jsstring \<Rightarrow> mstate option" where
  "exec_from ic r i cs =
     (case matcher ic r \<lparr>pos = i, rest = cs, caps = (\<lambda>_. None)\<rparr> of
        s # _ \<Rightarrow> Some s
      | [] \<Rightarrow> (case cs of [] \<Rightarrow> None | _ # cs' \<Rightarrow> exec_from ic r (Suc i) cs'))"

text \<open>\<open>text.match(re)\<close>: the captures of the match, or \<open>None\<close> for \<open>null\<close>.\<close>

fun js_match :: "regexp \<Rightarrow> jsstring \<Rightarrow> (nat \<Rightarrow> jsstring option) option" where
  "js_match (RegExp r ic) cs = map_option caps (exec_from ic r 0 cs)"

text \<open>\<open>re.test(s)\<close>.\<close>

fun js_test :: "regexp \<Rightarrow> jsstring \<Rightarrow> bool" where
  "js_test (RegExp r ic) cs = (exec_from ic r 0 cs \<noteq> None)"


declare exec_from.simps [simp del]

section \<open>The CRT extractor\<close>

subsection \<open>Field names and errors\<close>

definition ch :: "char \<Rightarrow> jschar" where
  "ch c = of_char c"

definition kNombrePDF :: jsstring where
  "kNombrePDF = str ''Nombre PDF''"

definition kFecha :: jsstring where
  "kFecha = str ''Fecha de Revisi'' @ [0xF3] @ str ''n''"

definition kPlanta :: jsstring where
  "kPlanta = str ''Planta''"

definition kPlaca :: jsstring where
  "kPlaca = str ''Placa Patente''"

definition kValidoRT :: jsstring where
  "kValidoRT = str ''V'' @ [0xE1] @ str ''lido Hasta Revisi'' @ [0xF3] @ str ''n T'' @ [0xE9] @ str ''cnica''"

definition kValidoCont :: jsstring where
  "kValidoCont = str ''V'' @ [0xE1] @ str ''lido Hasta Contaminantes''"

definition kFolio :: jsstring where
  "kFolio = str ''Folio''"

text \<open>
  The entries of the list \<open>errors\<close> of \<open>bestEffortValidationCRT\<close>, by the message that
  is pushed: a required field is missing, a field does not fit its format, and none of the
  two "V\'alido Hasta" fields is there.
\<close>

datatype problem =
    FaltaCampo jsstring
  | FormatoInvalido jsstring jsstring
  | FaltaValidoHasta

text \<open>
  The errors the code throws. \<open>TypeError\<close> is what JavaScript raises on reading a
  property of \<open>undefined\<close>; \<open>SinCertificado\<close> is the error of \<open>extraerDatosCRT\<close>
  ("El PDF no contiene ning\'un certificado v\'alido ..."); \<open>ProblemasEnDatos\<close> the one of
  \<open>bestEffortValidationCRT\<close>, with the file name and the list of problems its message
  joins; \<open>SinRegistros\<close> the one of \<open>generarExcel\<close>; \<open>ParseError\<close> stands for
  whatever the PDF reader throws.
\<close>

datatype error =
    TypeError
  | SinCertificado
  | ProblemasEnDatos jsstring "problem list"
  | SinRegistros
  | ParseError jsstring

type_synonym datos = "jsstring \<rightharpoonup> jsstring"
type_synonym captures = "nat \<Rightarrow> jsstring option"

subsection \<open>The patterns of \<open>extraerDatosCRT\<close>\<close>

definition spaces :: atom where
  "spaces = Cls [ClsSpace]"

definition digits :: atom where
  "digits = Cls [ClsDigit]"

text \<open>\<open>[A-Z\<dots>]\<close> with the six accented capitals A, E, I, O, U with acute and N with tilde.\<close>

definition letters :: atom where
  "letters = Cls [Range (ch CHR ''A'') (ch CHR ''Z''),
                  Chr 0xC1, Chr 0xC9, Chr 0xCD, Chr 0xD3, Chr 0xDA, Chr 0xD1]"

text \<open>\<open>[\s\S]\<close>\<close>

definition anychar :: atom where
  "anychar = Cls [ClsSpace, ClsNotSpace]"

text \<open>\<open>\d{1,2}\s+[A-Z\<dots>]+\s+\d{4}\<close>\<close>

definition fechaBody :: regex where
  "fechaBody = cat [Rep digits 1 (Some 2) True, Rep spaces 1 None True,
                    Rep letters 1 None True, Rep spaces 1 None True,
                    Rep digits 4 (Some 4) True]"

text \<open>\<open>[A-Z\<dots>]+\s+\d{4}\<close>\<close>

definition mesBody :: regex where
  "mesBody = cat [Rep letters 1 None True, Rep spaces 1 None True,
                  Rep digits 4 (Some 4) True]"

text \<open>\<open>FECHA REVISI\'ON:\<close>\<close>

definition litFechaRevision :: jsstring where
  "litFechaRevision = str ''FECHA REVISI'' @ [0xD3] @ str ''N:''"

text \<open>\<open>/FECHA REVISI\'ON:\s*(\d{1,2}\s+[A-Z\<dots>]+\s+\d{4})/i\<close>\<close>

definition fechaPattern :: regexp where
  "fechaPattern =
     RegExp (cat [Lit litFechaRevision, Rep spaces 0 None True, Group 1 fechaBody]) True"

text \<open>\<open>/PLANTA:\s*([A-Z0-9-]+)/i\<close>\<close>

definition plantaPattern :: regexp where
  "plantaPattern =
     RegExp (cat [Lit (str ''PLANTA:''), Rep spaces 0 None True,
                  Group 1 (Rep (Cls [Range (ch CHR ''A'') (ch CHR ''Z''),
                                     Range (ch CHR ''0'') (ch CHR ''9''),
                                     Chr (ch CHR ''-'')]) 1 None True)]) True"

text \<open>\<open>/PLACA PATENTE\s+([A-Z0-9]+)/i\<close>\<close>

definition placaPattern :: regexp where
  "placaPattern =
     RegExp (cat [Lit (str ''PLACA PATENTE''), Rep spaces 1 None True,
                  Group 1 (Rep (Cls [Range (ch CHR ''A'') (ch CHR ''Z''),
                                     Range (ch CHR ''0'') (ch CHR ''9'')]) 1 None True)]) True"

text \<open>\<open>CERTIFICADO\s+(?:DE\s+)?REVISI[\'OO]N\s+T[E\'E]CNICA\<close>\<close>

definition tituloRevision :: regex where
  "tituloRevision =
     cat [Lit (str ''CERTIFICADO''), Rep spaces 1 None True,
          Opt (cat [Lit (str ''DE''), Rep spaces 1 None True]),
          Lit (str ''REVISI''), Atom (Cls [Chr 0xD3, Chr (ch CHR ''O'')]), Lit (str ''N''),
          Rep spaces 1 None True,
          Lit (str ''T''), Atom (Cls [Chr (ch CHR ''E''), Chr 0xC9]), Lit (str ''CNICA'')]"

text \<open>\<open>CERTIFICADO\s+(?:DE\s+)?(?:EMISIONES\s+)?CONTAMINANTES\<close>\<close>

definition tituloContaminantes :: regex where
  "tituloContaminantes =
     cat [Lit (str ''CERTIFICADO''), Rep spaces 1 None True,
          Opt (cat [Lit (str ''DE''), Rep spaces 1 None True]),
          Opt (cat [Lit (str ''EMISIONES''), Rep spaces 1 None True]),
          Lit (str ''CONTAMINANTES'')]"

text \<open>The title of the first certificate, \<open>([\s\S]*?)\<close>, and the lookahead
  \<open>(?=CERTIFICADO\s+(?:DE\s+)?(?:EMISIONES\s+)?CONTAMINANTES|$)\<close>, with the \<open>i\<close> flag.\<close>

definition revisionSectionPattern :: regexp where
  "revisionSectionPattern =
     RegExp (cat [tituloRevision, Group 1 (Rep anychar 0 None False),
                  Look (Alt tituloContaminantes Eol)]) True"

text \<open>The title of the second certificate, \<open>([\s\S]*?)\<close>, and the lookahead
  \<open>(?=CERTIFICADO\s|$)\<close>, with the \<open>i\<close> flag.\<close>

definition contaminantesSectionPattern :: regexp where
  "contaminantesSectionPattern =
     RegExp (cat [tituloContaminantes, Group 1 (Rep anychar 0 None False),
                  Look (Alt (cat [Lit (str ''CERTIFICADO''), Atom spaces]) Eol)]) True"

text \<open>\<open>/V\'ALIDO HASTA(?:\s*FECHA REVISI\'ON:)?\s*(?:(\d{1,2}\s+[A-Z\<dots>]+\s+\d{4})\s+)?([A-Z\<dots>]+\s+\d{4})/i\<close>\<close>

definition validoPattern :: regexp where
  "validoPattern =
     RegExp (cat [Lit (str ''V'' @ [0xC1] @ str ''LIDO HASTA''),
                  Opt (cat [Rep spaces 0 None True, Lit litFechaRevision]),
                  Rep spaces 0 None True,
                  Opt (cat [Group 1 fechaBody, Rep spaces 1 None True]),
                  Group 2 mesBody]) True"

text \<open>\<open>/(N\<degree>B\d+)/i\<close>; the degree sign is the code unit \<open>0xB0\<close>.\<close>

definition litFolio :: jsstring where
  "litFolio = str ''N'' @ [0xB0] @ str ''B''"

definition folioPattern :: regexp where
  "folioPattern = RegExp (Group 1 (cat [Lit litFolio, Rep digits 1 None True])) True"


subsection \<open>\<open>extraerDatosCRT\<close>\<close>

text \<open>\<open>m ? m[1].trim() : ""\<close>, for the result \<open>m\<close> of a \<open>match\<close>. Reading \<open>trim\<close>
  of an undefined group would be a TypeError.\<close>

definition group1_trim :: "captures option \<Rightarrow> error + jsstring" where
  "group1_trim mt =
     (case mt of
        None \<Rightarrow> Inr []
      | Some c \<Rightarrow> (case c 1 of None \<Rightarrow> Inl TypeError | Some g \<Rightarrow> Inr (trim g)))"

text \<open>\<open>(m[2] || m[1] || "").trim()\<close>: \<open>||\<close> takes its left operand unless it is
  \<open>undefined\<close> or the empty string.\<close>

definition js_or :: "jsstring option \<Rightarrow> jsstring option \<Rightarrow> jsstring option" where
  "js_or a b = (case a of None \<Rightarrow> b | Some [] \<Rightarrow> b | Some (x # xs) \<Rightarrow> a)"

definition validoValue :: "captures \<Rightarrow> jsstring" where
  "validoValue c = (case js_or (js_or (c 2) (c 1)) (Some []) of None \<Rightarrow> [] | Some v \<Rightarrow> trim v)"

text \<open>
  The two blocks "Procesar secci\'on ... si existe": the field keeps its initial \<open>""\<close>
  when the section is absent or has no "V\'ALIDO HASTA", and gets the value found otherwise.
  \<open>sectionMatch[1].match(validoPattern)\<close> on an undefined group would be a TypeError.
\<close>

definition validoHasta :: "captures option \<Rightarrow> error + jsstring" where
  "validoHasta sectionMatch =
     (case sectionMatch of
        None \<Rightarrow> Inr []
      | Some c \<Rightarrow>
          (case c 1 of
             None \<Rightarrow> Inl TypeError
           | Some section \<Rightarrow>
               (case js_match validoPattern section of
                  None \<Rightarrow> Inr []
                | Some v \<Rightarrow> Inr (validoValue v))))"

text \<open>Sequencing of statements that may throw: the first error ends the function.\<close>

definition andThen :: "error + 'a \<Rightarrow> ('a \<Rightarrow> error + 'b) \<Rightarrow> error + 'b" where
  "andThen x f = (case x of Inl e \<Rightarrow> Inl e | Inr v \<Rightarrow> f v)"

definition extraerDatosCRT :: "jsstring \<Rightarrow> error + datos" where
  "extraerDatosCRT text =
     andThen (group1_trim (js_match fechaPattern text)) (\<lambda>fecha.
     andThen (group1_trim (js_match plantaPattern text)) (\<lambda>planta.
     andThen (group1_trim (js_match placaPattern text)) (\<lambda>placa.
     let revisionSectionMatch = js_match revisionSectionPattern text;
         contaminantesSectionMatch = js_match contaminantesSectionPattern text
     in
     andThen (validoHasta revisionSectionMatch) (\<lambda>validoRT.
     andThen (validoHasta contaminantesSectionMatch) (\<lambda>validoCont.
     if Option.is_none revisionSectionMatch \<and> Option.is_none contaminantesSectionMatch
     then Inl SinCertificado
     else
     andThen (group1_trim (js_match folioPattern text)) (\<lambda>folio.
     Inr (Map.empty(kFecha \<mapsto> fecha, kPlanta \<mapsto> planta, kPlaca \<mapsto> placa,
            kValidoRT \<mapsto> [], kValidoCont \<mapsto> [],
            kValidoRT \<mapsto> validoRT, kValidoCont \<mapsto> validoCont,
            kFolio \<mapsto> folio))))))))"

subsection \<open>\<open>bestEffortValidationCRT\<close>\<close>

text \<open>\<open>requiredPatterns\<close>, in the order of the object literal (the order of
  \<open>Object.entries\<close>): \<open>/^\d{1,2}\s+[A-Z\<dots>]+\s+\d{4}$/\<close>, \<open>/^[A-Z0-9]+$/\<close>,
  \<open>/^.+$/\<close> and \<open>/^N\<degree>B\d+$/i\<close>. Only the last has the \<open>i\<close> flag.\<close>

definition requiredPatterns :: "(jsstring \<times> regexp) list" where
  "requiredPatterns =
     [(kFecha, RegExp (cat [Bol, fechaBody, Eol]) False),
      (kPlaca, RegExp (cat [Bol, Rep (Cls [Range (ch CHR ''A'') (ch CHR ''Z''),
                                          Range (ch CHR ''0'') (ch CHR ''9'')]) 1 None True,
                            Eol]) False),
      (kPlanta, RegExp (cat [Bol, Rep Dot 1 None True, Eol]) False),
      (kFolio, RegExp (cat [Bol, Lit litFolio, Rep digits 1 None True, Eol]) True)]"

text \<open>\<open>optionalPatterns\<close>: twice \<open>/^[A-Z\<dots>]+\s+\d{4}$/i\<close>.\<close>

definition optionalPattern :: regexp where
  "optionalPattern = RegExp (cat [Bol, mesBody, Eol]) True"

definition optionalPatterns :: "(jsstring \<times> regexp) list" where
  "optionalPatterns = [(kValidoRT, optionalPattern), (kValidoCont, optionalPattern)]"

text \<open>The body of the first loop, for one entry: what it pushes on \<open>errors\<close>.
  \<open>!v\<close> holds for \<open>undefined\<close> and for the empty string.\<close>

fun checkRequired :: "datos \<Rightarrow> jsstring \<times> regexp \<Rightarrow> problem list" where
  "checkRequired d (field, pattern) =
     (case d field of
        None \<Rightarrow> [FaltaCampo field]
      | Some v \<Rightarrow>
          if v = [] then [FaltaCampo field]
          else if \<not> js_test pattern v then [FormatoInvalido field v]
          else [])"

text \<open>The body of the second loop.\<close>

fun checkOptional :: "datos \<Rightarrow> jsstring \<times> regexp \<Rightarrow> problem list" where
  "checkOptional d (field, pattern) =
     (case d field of
        None \<Rightarrow> []
      | Some v \<Rightarrow>
          if v = [] then []
          else if \<not> js_test pattern v then [FormatoInvalido field v]
          else [])"

text \<open>\<open>datos[f] && datos[f].trim() !== ""\<close>, as a truth value.\<close>

definition hasField :: "datos \<Rightarrow> jsstring \<Rightarrow> bool" where
  "hasField d f = (case d f of None \<Rightarrow> False | Some v \<Rightarrow> v \<noteq> [] \<and> trim v \<noteq> [])"

text \<open>The list \<open>errors\<close> when the function reaches its last test.\<close>

definition validationErrors :: "datos \<Rightarrow> problem list" where
  "validationErrors d =
     concat (map (checkRequired d) requiredPatterns) @
     concat (map (checkOptional d) optionalPatterns) @
     (if \<not> hasField d kValidoRT \<and> \<not> hasField d kValidoCont then [FaltaValidoHasta] else [])"

text \<open>
  The function returns nothing; \<open>datos\<close> is an object the caller goes on using, so the
  model returns the object as the call leaves it. The function never assigns to it.
\<close>

definition bestEffortValidationCRT :: "datos \<Rightarrow> jsstring \<Rightarrow> error + datos" where
  "bestEffortValidationCRT d fileName =
     (let errors = validationErrors d
      in if length errors > 0 then Inl (ProblemasEnDatos fileName errors) else Inr d)"

subsection \<open>\<open>procesarPDFCRT\<close>\<close>

text \<open>
  A file, as far as \<open>procesarPDFCRT\<close> sees it: its name and what \<open>parsePDFBuffer\<close>
  (not part of these sources) makes of it, the text or an error.
\<close>

record pdf_file =
  file_name :: jsstring
  pdf_text :: "error + jsstring"

text \<open>The seven columns, as \<open>generarExcel\<close> lists them.\<close>

definition headers :: "jsstring list" where
  "headers = [kNombrePDF, kFecha, kPlanta, kPlaca, kValidoRT, kValidoCont, kFolio]"

text \<open>
  The result is the object literal \<open>datosOrdenados\<close>: its keys in the order they are
  written, each with the value read from \<open>datosCRT\<close> (\<open>None\<close> for \<open>undefined\<close>).
  The \<open>catch\<close> rethrows the error it caught.
\<close>

definition procesarPDFCRT :: "pdf_file \<Rightarrow> error + (jsstring \<times> jsstring option) list" where
  "procesarPDFCRT file =
     andThen (pdf_text file) (\<lambda>pdfTexto.
     andThen (extraerDatosCRT pdfTexto) (\<lambda>datosCRT.
     andThen (bestEffortValidationCRT datosCRT (file_name file)) (\<lambda>datosCRT1.
     let datosCRT2 = datosCRT1(kNombrePDF \<mapsto> file_name file)
     in Inr [(kNombrePDF, datosCRT2 kNombrePDF),
             (kFecha, datosCRT2 kFecha),
             (kPlanta, datosCRT2 kPlanta),
             (kPlaca, datosCRT2 kPlaca),
             (kValidoRT, datosCRT2 kValidoRT),
             (kValidoCont, datosCRT2 kValidoCont),
             (kFolio, datosCRT2 kFolio)])))"


subsection \<open>\<open>generarExcel\<close>\<close>

text \<open>A value of type \<open>any\<close>, as far as the sheet is concerned.\<close>

datatype jsval = JUndefined | JNull | JString jsstring | JNumber int | JBool bool

type_synonym registro = "jsstring \<rightharpoonup> jsval"

text \<open>The cells of the sheet that have a value, by row and column (both from 1).\<close>

type_synonym sheet = "nat \<times> nat \<rightharpoonup> jsval"

text \<open>\<open>registro[header]\<close>: a key that is not there reads as \<open>undefined\<close>.\<close>

definition get_prop :: "registro \<Rightarrow> jsstring \<Rightarrow> jsval" where
  "get_prop r k = (case r k of None \<Rightarrow> JUndefined | Some v \<Rightarrow> v)"

text \<open>\<open>a ?? b\<close>\<close>

definition nullish_or :: "jsval \<Rightarrow> jsval \<Rightarrow> jsval" where
  "nullish_or a b = (case a of JUndefined \<Rightarrow> b | JNull \<Rightarrow> b | _ \<Rightarrow> a)"

text \<open>\<open>xs.forEach((x, i) => ...)\<close>, where the body updates a state.\<close>

definition forEach :: "'a list \<Rightarrow> ('a \<Rightarrow> nat \<Rightarrow> 's \<Rightarrow> 's) \<Rightarrow> 's \<Rightarrow> 's" where
  "forEach xs f = fold (\<lambda>(i, x). f x i) (enumerate 0 xs)"

text \<open>\<open>sheet.cell(r, c).value(v)\<close>\<close>

definition cell_value :: "nat \<Rightarrow> nat \<Rightarrow> jsval \<Rightarrow> sheet \<Rightarrow> sheet" where
  "cell_value r c v sh = sh((r, c) \<mapsto> v)"

text \<open>
  The function, up to the workbook it hands to \<open>outputAsync\<close> and \<open>saveAs\<close>: the
  result is the content of the sheet "Datos" of a blank workbook after the two loops.
\<close>

definition generarExcel :: "registro list \<Rightarrow> error + sheet" where
  "generarExcel registros =
     (if length registros = 0 then Inl SinRegistros
      else
        let sheet0 = Map.empty;
            sheet1 = forEach headers
                       (\<lambda>header colIndex. cell_value 1 (colIndex + 1) (JString header)) sheet0;
            sheet2 = forEach registros
                       (\<lambda>registro rowIndex.
                          forEach headers
                            (\<lambda>header colIndex.
                               cell_value (rowIndex + 2) (colIndex + 1)
                                 (nullish_or (get_prop registro header) (JString []))))
                       sheet1
        in Inr sheet2)"

section \<open>The functions with the state of the runtime\<close>

text \<open>
  The model above takes \<open>extraerDatosCRT\<close>, \<open>bestEffortValidationCRT\<close> and
  \<open>procesarPDFCRT\<close> as functions of their arguments. What a call could depend on besides
  its arguments is the state that outlives it: the module \<open>@/utils/logger\<close>, which every
  call writes to, and the \<open>lastIndex\<close> of the regular expression objects. This section
  has the same three functions statement by statement with that state passed along, so that
  whether a result depends on it is a theorem and not a choice of the model.
\<close>

subsection \<open>The logger\<close>









subsection \<open>Regular expression objects\<close>






subsection \<open>\<open>extraerDatosCRT\<close>\<close>










subsection \<open>\<open>bestEffortValidationCRT\<close>\<close>












subsection \<open>\<open>procesarPDFCRT\<close>\<close>








subsection \<open>A logger that counts\<close>


section \<open>Configuration\<close>

text \<open>
  A Number, as far as \<open>parseInt\<close> returns one: \<open>NaN\<close>, a double whose value is an
  integer, given by its sign (\<open>True\<close> for negative) and its magnitude, so that \<open>Num True 0\<close> is
  \<open>-0\<close>, and the two infinities.
\<close>

datatype jsnumber = NaN | Num bool nat | Infinity bool

text \<open>The number of binary digits of a natural number.\<close>

fun bitlength :: "nat \<Rightarrow> nat" where
  "bitlength n = (if n = 0 then 0 else Suc (bitlength (n div 2)))"

declare bitlength.simps [simp del]

text \<open>
  The Number value for a natural number: the double nearest to it, a tie going to the one
  with the even significand. A double has a significand of 53 binary digits, so a number
  of more digits loses its last \<open>e = bitlength n - 53\<close> digits and is rounded to a multiple
  of \<open>2^e\<close>; a result of \<open>2^1024\<close> or more is beyond the largest double and becomes
  infinity (\<open>None\<close>).
\<close>

definition roundTiesToEven :: "nat \<Rightarrow> nat option" where
  "roundTiesToEven n =
     (let e = bitlength n - 53;
          q = n div 2 ^ e;
          r = n mod 2 ^ e;
          q1 = (if 2 ^ e < 2 * r \<or> (2 * r = 2 ^ e \<and> odd q) then q + 1 else q)
      in if 2 ^ 1024 \<le> q1 * 2 ^ e then None else Some (q1 * 2 ^ e))"

definition toNumber :: "bool \<Rightarrow> nat \<Rightarrow> jsnumber" where
  "toNumber neg n = (case roundTiesToEven n of None \<Rightarrow> Infinity neg | Some v \<Rightarrow> Num neg v)"

text \<open>
  \<open>parseInt(string, 10)\<close>, by the steps of ECMAScript: leading white space is removed, a
  sign is read and removed, \<open>Z\<close> is the longest prefix of decimal digits of what is left (with
  the radix 10 no \<open>0x\<close> is stripped), the result is \<open>NaN\<close> when \<open>Z\<close> is empty, and otherwise
  the Number value for the integer that \<open>Z\<close> denotes in base 10, with the sign (\<open>-0\<close> for a
  negative zero). ECMAScript lets an implementation replace the digits after the twentieth
  by zeros; V8, which runs this program under Node and Chrome, rounds the exact integer, and
  so does the model.
\<close>

definition parseInt10 :: "jsstring \<Rightarrow> jsnumber" where
  "parseInt10 string =
     (let S = dropWhile isWhiteSpace string;
          neg = (case S of [] \<Rightarrow> False | c # cs \<Rightarrow> c = ch CHR ''-'');
          S1 = (case S of [] \<Rightarrow> []
                | c # cs \<Rightarrow> if c = ch CHR ''+'' \<or> c = ch CHR ''-'' then cs else S);
          Z = takeWhile isDigit S1
      in if Z = [] then NaN
         else toNumber neg (foldl (\<lambda>n c. 10 * n + (c - ch CHR ''0'')) 0 Z))"

text \<open>
  \<open>parseInt(process.env.NEXT_PUBLIC_MAX_FILE_SIZE || "5242880", 10)\<close>, as a function of
  the environment variable (\<open>None\<close> when it is not defined).
\<close>

definition MAX_FILE_SIZE :: "jsstring option \<Rightarrow> jsnumber" where
  "MAX_FILE_SIZE env =
     parseInt10 (case js_or env (Some (str ''5242880'')) of None \<Rightarrow> [] | Some v \<Rightarrow> v)"

text \<open>
  The number that a string of decimal digits denotes in base 10, as a sum: the digit at
  index \<open>i\<close> of \<open>n\<close> digits counts \<open>10 ^ (n - 1 - i)\<close> times. The statements compare
  what \<open>parseInt\<close> computes with it.
\<close>

definition decimal :: "jsstring \<Rightarrow> nat" where
  "decimal ds = (\<Sum>i<length ds. (ds ! i - ch CHR ''0'') * 10 ^ (length ds - Suc i))"

section \<open>The batch pipeline\<close>

text \<open>
  The route that runs a batch (scheduler, progress reporter, result aggregator) is not among
  the sources; the definitions of this section follow the specification.
\<close>

text \<open>Modelled from the spec: the error kind of a Failure outcome; the sources have no
  scheduler, so \<open>Timeout\<close> is the kind the specification gives to a task the batch
  cancelled, and \<open>Thrown\<close> carries the error the extractor raised.\<close>

datatype failure = Thrown error | Timeout

text \<open>Modelled from the spec: ExtractionOutcome, "discriminated union, variants
  Success{fields: ordered map of column to value, sourceId}, Failure{sourceId, errorKind,
  message}"; the type is missing from the sources.\<close>

datatype outcome =
    Success "(jsstring \<times> jsstring option) list" jsstring
  | Failure jsstring failure

text \<open>Modelled from the spec: the task boundary of the Task Scheduler, which is missing from
  the sources: "per-document errors are caught at the task boundary and converted to Failure
  outcomes". The per-document routine is \<open>procesarPDFCRT\<close> of the sources.\<close>

definition task_outcome :: "pdf_file \<Rightarrow> outcome" where
  "task_outcome file =
     (case procesarPDFCRT file of
        Inr columns \<Rightarrow> Success columns (file_name file)
      | Inl e \<Rightarrow> Failure (file_name file) (Thrown e))"

fun is_success :: "outcome \<Rightarrow> bool" where
  "is_success (Success _ _) = True"
| "is_success (Failure _ _) = False"

fun source_id :: "outcome \<Rightarrow> jsstring" where
  "source_id (Success _ n) = n"
| "source_id (Failure n _) = n"

text \<open>Modelled from the spec: the Progress Reporter's state, missing from the sources:
  "Maintains atomic counters: completed, succeeded, failed, and a start timestamp".\<close>

record reporter =
  completed :: nat
  succeeded :: nat
  failed :: nat
  started :: rat
  batch_size :: nat

text \<open>Modelled from the spec: ProgressEvent, missing from the sources: "{sequence number,
  total, fileName, status, runningSuccesses, runningFailures, elapsedMs,
  estimatedRemainingMs, error?}".\<close>

record progress_event =
  sequence_number :: nat
  event_total :: nat
  event_file :: jsstring
  fulfilled :: bool
  runningSuccesses :: nat
  runningFailures :: nat
  elapsedMs :: rat
  estimatedRemainingMs :: rat
  event_error :: "failure option"

text \<open>Modelled from the spec: the estimate of the Progress Reporter, missing from the
  sources: "estimatedRemainingMs = elapsedMs / completed * (total - completed) (...;
  reported as 0 once completed == total)".\<close>

definition estimate :: "rat \<Rightarrow> nat \<Rightarrow> nat \<Rightarrow> rat" where
  "estimate elapsed done n =
     (if done = n then 0 else elapsed / of_nat done * (of_nat n - of_nat done))"

text \<open>Modelled from the spec: what the Progress Reporter does on each task completion,
  missing from the sources: it "increments the sequence counter; recomputes elapsedMs = now -
  start; computes estimatedRemainingMs ...; emits one ProgressEvent carrying the current
  running totals". The sequence number is the count of completions so far.\<close>

definition on_completion :: "reporter \<Rightarrow> outcome \<Rightarrow> rat \<Rightarrow> reporter \<times> progress_event" where
  "on_completion rp out now =
     (let rp1 = rp\<lparr>completed := completed rp + 1,
                   succeeded := succeeded rp + (if is_success out then 1 else 0),
                   failed := failed rp + (if is_success out then 0 else 1)\<rparr>;
          elapsed = now - started rp
      in (rp1,
          \<lparr>sequence_number = completed rp1,
           event_total = batch_size rp,
           event_file = source_id out,
           fulfilled = is_success out,
           runningSuccesses = succeeded rp1,
           runningFailures = failed rp1,
           elapsedMs = elapsed,
           estimatedRemainingMs = estimate elapsed (completed rp1) (batch_size rp),
           event_error = (case out of Success _ _ \<Rightarrow> None | Failure _ k \<Rightarrow> Some k)\<rparr>))"

text \<open>Modelled from the spec: the stream of progress events of a run, missing from the
  sources: one event per completion, in completion order. A completion is the outcome
  of the task and the time at which it completed.\<close>

fun report_progress :: "reporter \<Rightarrow> (outcome \<times> rat) list \<Rightarrow> progress_event list" where
  "report_progress rp [] = []"
| "report_progress rp ((out, now) # cs) =
     (case on_completion rp out now of (rp1, ev) \<Rightarrow> ev # report_progress rp1 cs)"

text \<open>Modelled from the spec: BatchReport, missing from the sources: "{totalProcessed,
  totalSuccess, totalFailure, successes: ordered sequence of column-maps, failures: ordered
  sequence of {fileName, error}}".\<close>

record batch_report =
  totalProcessed :: nat
  totalSuccess :: nat
  totalFailure :: nat
  successes :: "(jsstring \<times> jsstring option) list list"
  failures :: "(jsstring \<times> failure) list"

text \<open>Modelled from the spec: the Result Aggregator, missing from the sources. It stores each
  outcome "keyed by original submission index"; a task that has no outcome when the report
  is built was cancelled by the batch timeout, "marking them Failure{Timeout}".\<close>

type_synonym aggregator = "nat \<rightharpoonup> outcome"

definition outcome_at :: "pdf_file list \<Rightarrow> aggregator \<Rightarrow> nat \<Rightarrow> outcome" where
  "outcome_at files agg i =
     (case agg i of Some out \<Rightarrow> out | None \<Rightarrow> Failure (file_name (files ! i)) Timeout)"

text \<open>Modelled from the spec: the report, missing from the sources: "built once, after the
  last ProgressEvent, by folding all ExtractionOutcomes in submission order, not completion
  order".\<close>

fun add_outcome :: "outcome \<Rightarrow> batch_report \<Rightarrow> batch_report" where
  "add_outcome (Success columns n) rep =
     rep\<lparr>totalProcessed := totalProcessed rep + 1,
         totalSuccess := totalSuccess rep + 1,
         successes := successes rep @ [columns]\<rparr>"
| "add_outcome (Failure n k) rep =
     rep\<lparr>totalProcessed := totalProcessed rep + 1,
         totalFailure := totalFailure rep + 1,
         failures := failures rep @ [(n, k)]\<rparr>"

definition empty_report :: batch_report where
  "empty_report = \<lparr>totalProcessed = 0, totalSuccess = 0, totalFailure = 0,
                    successes = [], failures = []\<rparr>"

definition build_report :: "pdf_file list \<Rightarrow> aggregator \<Rightarrow> batch_report" where
  "build_report files agg =
     fold add_outcome (map (outcome_at files agg) [0 ..< length files]) empty_report"

text \<open>Modelled from the spec: a run of the pipeline on a batch, missing from the sources. The
  schedule lists the completions in the order in which they happen: the submission index of
  the task and the time. Each completion goes "to both the Progress Reporter (counter update,
  event emission) and the Result Aggregator (bucket placement)"; an index that names no
  submitted document is no completion.\<close>

definition completions :: "pdf_file list \<Rightarrow> (nat \<times> rat) list \<Rightarrow> (nat \<times> outcome \<times> rat) list" where
  "completions files schedule =
     map (\<lambda>(i, now). (i, task_outcome (files ! i), now))
       (filter (\<lambda>(i, now). i < length files) schedule)"

definition aggregate :: "(nat \<times> outcome \<times> rat) list \<Rightarrow> aggregator" where
  "aggregate cs = fold (\<lambda>(i, out, now) agg. agg(i \<mapsto> out)) cs Map.empty"

definition run_batch ::
    "pdf_file list \<Rightarrow> rat \<Rightarrow> (nat \<times> rat) list \<Rightarrow> progress_event list \<times> batch_report" where
  "run_batch files start schedule =
     (let cs = completions files schedule;
          rp0 = \<lparr>completed = 0, succeeded = 0, failed = 0, started = start,
                  batch_size = length files\<rparr>
      in (report_progress rp0 (map snd cs), build_report files (aggregate cs)))"

text \<open>Modelled from the spec: the completions of a batch whose tasks all take the same time
  \<open>d\<close>, run by the Task Scheduler on \<open>c\<close> slots; the scheduler is missing from the sources.
  It is to "execute up to C DocumentTasks concurrently", from the backlog in submission
  order, and "a finishing slot immediately admits the next pending task": task \<open>i\<close> starts
  when task \<open>i - c\<close> completes, so it completes at \<open>start + d * (i div c + 1)\<close>.\<close>

definition uniform_schedule :: "nat \<Rightarrow> rat \<Rightarrow> rat \<Rightarrow> nat \<Rightarrow> (nat \<times> rat) list" where
  "uniform_schedule c d start n =
     map (\<lambda>i. (i, start + d * of_nat (i div c + 1))) [0 ..< n]"

section \<open>Notions used in the statements\<close>

text \<open>The text of a certificate section: group 1 of the section pattern, when it matches.\<close>

definition seccion :: "regexp \<Rightarrow> jsstring \<Rightarrow> jsstring option" where
  "seccion p pdfTexto = (case js_match p pdfTexto of None \<Rightarrow> None | Some c \<Rightarrow> c 1)"

text \<open>The match of \<open>validoPattern\<close> inside a section, when the section is there and has
  one.\<close>

definition validoEn :: "regexp \<Rightarrow> jsstring \<Rightarrow> captures option" where
  "validoEn p pdfTexto =
     (case seccion p pdfTexto of None \<Rightarrow> None | Some sec \<Rightarrow> js_match validoPattern sec)"

text \<open>The string a fixed field gets from its pattern.\<close>

definition campo :: "regexp \<Rightarrow> jsstring \<Rightarrow> jsstring" where
  "campo p pdfTexto = (case group1_trim (js_match p pdfTexto) of Inl e \<Rightarrow> [] | Inr v \<Rightarrow> v)"

text \<open>The string a "V\'alido Hasta" field gets from its section.\<close>

definition validoDe :: "regexp \<Rightarrow> jsstring \<Rightarrow> jsstring" where
  "validoDe p pdfTexto = (case validoEn p pdfTexto of None \<Rightarrow> [] | Some v \<Rightarrow> validoValue v)"

text \<open>The object \<open>extraerDatosCRT\<close> returns when it returns.\<close>

definition datosDe :: "jsstring \<Rightarrow> datos" where
  "datosDe pdfTexto =
     Map.empty(kFecha \<mapsto> campo fechaPattern pdfTexto,
       kPlanta \<mapsto> campo plantaPattern pdfTexto,
       kPlaca \<mapsto> campo placaPattern pdfTexto,
       kValidoRT \<mapsto> validoDe revisionSectionPattern pdfTexto,
       kValidoCont \<mapsto> validoDe contaminantesSectionPattern pdfTexto,
       kFolio \<mapsto> campo folioPattern pdfTexto)"

text \<open>The four fixed fields of a text, as extracted.\<close>

definition camposFijos :: "jsstring \<Rightarrow> datos" where
  "camposFijos pdfTexto =
     Map.empty(kFecha \<mapsto> campo fechaPattern pdfTexto, kPlanta \<mapsto> campo plantaPattern pdfTexto,
       kPlaca \<mapsto> campo placaPattern pdfTexto, kFolio \<mapsto> campo folioPattern pdfTexto)"

text \<open>"The fixed required fields extract and validate successfully": the first loop of
  \<open>bestEffortValidationCRT\<close> finds no problem in the four fixed fields of the text.\<close>

definition fixedFieldsValid :: "jsstring \<Rightarrow> bool" where
  "fixedFieldsValid pdfTexto \<longleftrightarrow>
     concat (map (checkRequired (camposFijos pdfTexto)) requiredPatterns) = []"

text \<open>The wording of the claim on validation: a field is "absent/empty"; "some
  unconditionally required field is absent/empty or fails its required pattern"; "some
  non-empty optional field fails its pattern".\<close>

definition campoVacio :: "datos \<Rightarrow> jsstring \<Rightarrow> bool" where
  "campoVacio d f \<longleftrightarrow> d f = None \<or> d f = Some []"

definition requiredBad :: "datos \<Rightarrow> bool" where
  "requiredBad d \<longleftrightarrow>
     (\<exists>(field, pattern) \<in> set requiredPatterns.
        campoVacio d field \<or> (\<exists>v. d field = Some v \<and> \<not> js_test pattern v))"

definition optionalBad :: "datos \<Rightarrow> bool" where
  "optionalBad d \<longleftrightarrow>
     (\<exists>(field, pattern) \<in> set optionalPatterns.
        \<not> campoVacio d field \<and> (\<exists>v. d field = Some v \<and> \<not> js_test pattern v))"

text \<open>The characters \<open>[A-Z\<dots>]\<close> matches under the \<open>i\<close> flag: the letters A to Z, the
  six accented capitals, and the lower case of each.\<close>

definition isLetra :: "jschar \<Rightarrow> bool" where
  "isLetra c \<longleftrightarrow>
     (65 \<le> c \<and> c \<le> 90) \<or> (97 \<le> c \<and> c \<le> 122) \<or>
     c = 193 \<or> c = 201 \<or> c = 205 \<or> c = 211 \<or> c = 218 \<or> c = 209 \<or>
     c = 225 \<or> c = 233 \<or> c = 237 \<or> c = 243 \<or> c = 250 \<or> c = 241"

text \<open>The strings \<open>[A-Z\<dots>]+\s+\d{4}\<close> matches as a whole: letters, white space, four
  digits.\<close>

definition is_mes :: "jsstring \<Rightarrow> bool" where
  "is_mes g \<longleftrightarrow>
     (\<exists>L S D. g = L @ S @ D \<and> L \<noteq> [] \<and> (\<forall>c \<in> set L. isLetra c) \<and>
        S \<noteq> [] \<and> (\<forall>c \<in> set S. isWhiteSpace c) \<and>
        length D = 4 \<and> (\<forall>c \<in> set D. isDigit c))"

text \<open>\<open>registro[header] ?? ""\<close>, the value \<open>generarExcel\<close> writes for a record and a
  column.\<close>

definition celda :: "registro \<Rightarrow> jsstring \<Rightarrow> jsval" where
  "celda r h = nullish_or (get_prop r h) (JString [])"

text \<open>The inner loop of \<open>generarExcel\<close>: one row, a cell for each header.\<close>

definition write_headers_row :: "nat \<Rightarrow> (jsstring \<Rightarrow> jsval) \<Rightarrow> sheet \<Rightarrow> sheet" where
  "write_headers_row r f =
     forEach headers (\<lambda>header colIndex. cell_value r (colIndex + 1) (f header))"

section \<open>Example documents\<close>

text \<open>The fixed fields of a certificate: date, plant, plate and folio.\<close>

definition ex_fixed :: jsstring where
  "ex_fixed = litFechaRevision @ str '' 10 OCTUBRE 2023 PLANTA: AB-01 PLACA PATENTE ABCD12 '' @
              litFolio @ str ''12345 ''"

definition ex_valido :: jsstring where
  "ex_valido = str ''V'' @ [0xC1] @ str ''LIDO HASTA''"

text \<open>Only the first certificate, with its "V\'ALIDO HASTA".\<close>

definition ex_text_rt :: jsstring where
  "ex_text_rt = ex_fixed @ str ''CERTIFICADO REVISION TECNICA '' @ ex_valido @ str '' OCTUBRE 2024''"

text \<open>Only the first certificate, and no "V\'ALIDO HASTA" in it.\<close>

definition ex_text_rt_bare :: jsstring where
  "ex_text_rt_bare = ex_fixed @ str ''CERTIFICADO REVISION TECNICA''"

text \<open>The fixed fields and no certificate.\<close>

definition ex_text_none :: jsstring where
  "ex_text_none = ex_fixed"

definition ex_file_rt :: pdf_file where
  "ex_file_rt = \<lparr>file_name = str ''rt.pdf'', pdf_text = Inr ex_text_rt\<rparr>"

definition ex_file_rt_bare :: pdf_file where
  "ex_file_rt_bare = \<lparr>file_name = str ''bare.pdf'', pdf_text = Inr ex_text_rt_bare\<rparr>"

definition ex_file_none :: pdf_file where
  "ex_file_none = \<lparr>file_name = str ''none.pdf'', pdf_text = Inr ex_text_none\<rparr>"

text \<open>A batch of two documents in which the second one completes first.\<close>

definition ex_batch :: "pdf_file list" where
  "ex_batch = [ex_file_rt, ex_file_none]"

definition ex_schedule :: "(nat \<times> rat) list" where
  "ex_schedule = [(1, 150), (0, 300)]"


text \<open>Only the title of the first certificate: no fixed field is there.\<close>

definition ex_text_titulo :: jsstring where
  "ex_text_titulo = str ''CERTIFICADO DE REVISION TECNICA''"

text \<open>The fields of the first example, as an object of their own.\<close>

definition ex_datos :: datos where
  "ex_datos = Map.empty(kFecha \<mapsto> str ''10 OCTUBRE 2023'', kPlanta \<mapsto> str ''AB-01'',
     kPlaca \<mapsto> str ''ABCD12'', kValidoRT \<mapsto> str ''OCTUBRE 2024'', kValidoCont \<mapsto> [],
     kFolio \<mapsto> litFolio @ str ''12345'')"

text \<open>The entry \<open>procesarPDFCRT\<close> makes of the first example.\<close>

definition ex_row :: "(jsstring \<times> jsstring option) list" where
  "ex_row = [(kNombrePDF, Some (str ''rt.pdf'')),
             (kFecha, Some (str ''10 OCTUBRE 2023'')),
             (kPlanta, Some (str ''AB-01'')),
             (kPlaca, Some (str ''ABCD12'')),
             (kValidoRT, Some (str ''OCTUBRE 2024'')),
             (kValidoCont, Some []),
             (kFolio, Some (litFolio @ str ''12345''))]"

text \<open>A record with a name, a folio that is \<open>null\<close> and no other key.\<close>

definition ex_registro :: registro where
  "ex_registro = Map.empty(kNombrePDF \<mapsto> JString (str ''rt.pdf''), kFolio \<mapsto> JNull)"


text \<open>A batch of seven documents.\<close>

definition ex_batch7 :: "pdf_file list" where
  "ex_batch7 = replicate 7 ex_file_none"


section \<open>Unfolding on concrete inputs\<close>

lemmas key_defs = kNombrePDF_def kFecha_def kPlanta_def kPlaca_def kValidoRT_def
  kValidoCont_def kFolio_def

lemma keys_neq:
  "kNombrePDF \<noteq> kFecha \<and>
   kNombrePDF \<noteq> kPlanta \<and>
   kNombrePDF \<noteq> kPlaca \<and>
   kNombrePDF \<noteq> kValidoRT \<and>
   kNombrePDF \<noteq> kValidoCont \<and>
   kNombrePDF \<noteq> kFolio \<and>
   kFecha \<noteq> kNombrePDF \<and>
   kFecha \<noteq> kPlanta \<and>
   kFecha \<noteq> kPlaca \<and>
   kFecha \<noteq> kValidoRT \<and>
   kFecha \<noteq> kValidoCont \<and>
   kFecha \<noteq> kFolio \<and>
   kPlanta \<noteq> kNombrePDF \<and>
   kPlanta \<noteq> kFecha \<and>
   kPlanta \<noteq> kPlaca \<and>
   kPlanta \<noteq> kValidoRT \<and>
   kPlanta \<noteq> kValidoCont \<and>
   kPlanta \<noteq> kFolio \<and>
   kPlaca \<noteq> kNombrePDF \<and>
   kPlaca \<noteq> kFecha \<and>
   kPlaca \<noteq> kPlanta \<and>
   kPlaca \<noteq> kValidoRT \<and>
   kPlaca \<noteq> kValidoCont \<and>
   kPlaca \<noteq> kFolio \<and>
   kValidoRT \<noteq> kNombrePDF \<and>
   kValidoRT \<noteq> kFecha \<and>
   kValidoRT \<noteq> kPlanta \<and>
   kValidoRT \<noteq> kPlaca \<and>
   kValidoRT \<noteq> kValidoCont \<and>
   kValidoRT \<noteq> kFolio \<and>
   kValidoCont \<noteq> kNombrePDF \<and>
   kValidoCont \<noteq> kFecha \<and>
   kValidoCont \<noteq> kPlanta \<and>
   kValidoCont \<noteq> kPlaca \<and>
   kValidoCont \<noteq> kValidoRT \<and>
   kValidoCont \<noteq> kFolio \<and>
   kFolio \<noteq> kNombrePDF \<and>
   kFolio \<noteq> kFecha \<and>
   kFolio \<noteq> kPlanta \<and>
   kFolio \<noteq> kPlaca \<and>
   kFolio \<noteq> kValidoRT \<and>
   kFolio \<noteq> kValidoCont"
  by (simp add: key_defs str_def)

lemmas pattern_defs = fechaPattern_def plantaPattern_def placaPattern_def
  revisionSectionPattern_def contaminantesSectionPattern_def validoPattern_def folioPattern_def
  tituloRevision_def tituloContaminantes_def fechaBody_def mesBody_def litFechaRevision_def
  litFolio_def spaces_def digits_def letters_def anychar_def optionalPattern_def
  requiredPatterns_def optionalPatterns_def

lemmas eval_defs = str_def ch_def isWhiteSpace_def isDigit_def isLineTerminator_def trim_def
  toUpperCase_def canonicalize_def advance_def run_def exec_from.simps matcher.simps(8) Let_def
  campo_def group1_trim_def seccion_def validoEn_def validoDe_def validoValue_def js_or_def


section \<open>Configuration: the maximum file size\<close>

subsection \<open>Rounding to a double\<close>

text \<open>
  \<open>roundTiesToEven\<close> is the rounding of IEEE 754 on the natural numbers: a number below
  \<open>2^53\<close> is a double and stays as it is; the result is a double (a significand below
  \<open>2^53\<close> times a power of two, and below \<open>2^1024\<close>), no double is nearer to the number,
  and in a tie the significand of the result is even.
\<close>

lemma bitlength_0 [simp]: "bitlength 0 = 0"
  by (subst bitlength.simps) simp

lemma bitlength_less: "n < 2 ^ bitlength n"
proof (induction n rule: bitlength.induct)
  case (1 n)
  show ?case
  proof (cases "n = 0")
    case True
    then show ?thesis by (simp add: bitlength.simps)
  next
    case False
    from 1 [OF False] have "n div 2 < 2 ^ bitlength (n div 2)" .
    then have "n < 2 * 2 ^ bitlength (n div 2)" by linarith
    with False show ?thesis by (subst bitlength.simps) simp
  qed
qed

lemma bitlength_ge: "n \<noteq> 0 \<Longrightarrow> 2 ^ (bitlength n - 1) \<le> n"
proof (induction n rule: bitlength.induct)
  case (1 n)
  show ?case
  proof (cases "n div 2 = 0")
    case True
    with 1(2) have "n = 1" by linarith
    then show ?thesis by (simp add: bitlength.simps)
  next
    case False
    from 1(1) [OF 1(2) False] have ih: "2 ^ (bitlength (n div 2) - 1) \<le> n div 2" .
    from False have pos: "bitlength (n div 2) \<noteq> 0" by (subst bitlength.simps) simp
    have "bitlength n = Suc (bitlength (n div 2))"
      using 1(2) by (subst bitlength.simps) simp
    then have "2 ^ (bitlength n - 1) = 2 * 2 ^ (bitlength (n div 2) - 1)"
      using pos by (cases "bitlength (n div 2)") simp_all
    also have "\<dots> \<le> 2 * (n div 2)" using ih by simp
    also have "\<dots> \<le> n" by simp
    finally show ?thesis .
  qed
qed

lemma bitlength_le: "n < 2 ^ k \<Longrightarrow> bitlength n \<le> k"
proof (rule ccontr)
  assume n: "n < 2 ^ k" and "\<not> bitlength n \<le> k"
  then have k: "k \<le> bitlength n - 1" and "n \<noteq> 0"
    by (simp, cases "n = 0") simp_all
  then have "(2::nat) ^ k \<le> 2 ^ (bitlength n - 1)" by (intro power_increasing) simp_all
  also have "\<dots> \<le> n" using \<open>n \<noteq> 0\<close> by (rule bitlength_ge)
  finally show False using n by simp
qed

lemma roundTiesToEven_exact:
  assumes "n < 2 ^ 53"
  shows "roundTiesToEven n = Some n"
proof -
  from assms have "bitlength n - 53 = 0" using bitlength_le [of n 53] by simp
  moreover have "n < 2 ^ 1024"
    using assms by (rule less_le_trans) simp
  ultimately show ?thesis by (simp add: roundTiesToEven_def Let_def)
qed

lemma toNumber_exact: "n < 2 ^ 53 \<Longrightarrow> toNumber neg n = Num neg n"
  by (simp add: toNumber_def roundTiesToEven_exact)

lemma roundTiesToEven_shape:
  assumes "roundTiesToEven n = Some v"
  defines "P \<equiv> 2 ^ (bitlength n - 53)"
  defines "q \<equiv> n div P" and "r \<equiv> n mod P"
  shows "v = (if P < 2 * r \<or> (2 * r = P \<and> odd q) then q + 1 else q) * P" and "v < 2 ^ 1024"
proof -
  have gen: "\<not> c \<and> v = x" if "(if c then None else Some x) = Some v" for c and x :: nat
    using that by (auto split: if_splits)
  from assms(1)
  have "\<not> 2 ^ 1024 \<le> (if P < 2 * r \<or> (2 * r = P \<and> odd q) then q + 1 else q) * P \<and>
        v = (if P < 2 * r \<or> (2 * r = P \<and> odd q) then q + 1 else q) * P"
    unfolding roundTiesToEven_def Let_def P_def q_def r_def by (rule gen)
  then show "v = (if P < 2 * r \<or> (2 * r = P \<and> odd q) then q + 1 else q) * P"
    and "v < 2 ^ 1024"
    by (simp_all only: not_le)
qed

lemma significand_less: "n div 2 ^ (bitlength n - 53) < 2 ^ 53"
proof -
  have "bitlength n \<le> 53 + (bitlength n - 53)" by simp
  then have "(2::nat) ^ bitlength n \<le> 2 ^ (53 + (bitlength n - 53))"
    by (rule power_increasing) simp
  with bitlength_less [of n] have "n < 2 ^ (53 + (bitlength n - 53))"
    by (rule less_le_trans)
  then have "n < 2 ^ 53 * 2 ^ (bitlength n - 53)"
    by (simp only: power_add)
  then show ?thesis by (rule less_mult_imp_div_less)
qed

lemma significand_ge:
  assumes "53 < bitlength n"
  shows "2 ^ 52 \<le> n div 2 ^ (bitlength n - 53)"
proof -
  from assms have "n \<noteq> 0" by (cases "n = 0") simp_all
  then have "2 ^ (bitlength n - 1) \<le> n" by (rule bitlength_ge)
  moreover from assms have "bitlength n - 1 = 52 + (bitlength n - 53)" by simp
  ultimately have "2 ^ 52 * 2 ^ (bitlength n - 53) \<le> n"
    by (simp only: power_add)
  then have "(2 ^ 52 * 2 ^ (bitlength n - 53)) div 2 ^ (bitlength n - 53) \<le>
             n div 2 ^ (bitlength n - 53)"
    by (rule div_le_mono)
  moreover have "((2::nat) ^ 52 * 2 ^ (bitlength n - 53)) div 2 ^ (bitlength n - 53) = 2 ^ 52"
    by (rule div_mult_self_is_m) simp
  ultimately show ?thesis by (simp only:)
qed

lemma roundTiesToEven_nearest:
  assumes v: "roundTiesToEven n = Some v" and m: "m < 2 ^ 53"
  shows "\<bar>int v - int n\<bar> \<le> \<bar>int (m * 2 ^ k) - int n\<bar>"
proof -
  define e where "e = bitlength n - 53"
  define P :: nat where "P = 2 ^ e"
  define q where "q = n div P"
  define r where "r = n mod P"
  define d where "d = m * 2 ^ k"
  have n: "n = q * P + r" and rP: "r < P"
    unfolding q_def r_def by (rule div_mult_mod_eq [symmetric]) (simp add: P_def)
  from roundTiesToEven_shape(1) [OF v]
  have vv: "v = (if P < 2 * r \<or> (2 * r = P \<and> odd q) then q + 1 else q) * P"
    by (simp add: P_def e_def q_def r_def)
  have err: "\<bar>int v - int n\<bar> \<le> int r" "\<bar>int v - int n\<bar> \<le> int P - int r"
    using rP by (auto simp: vv n algebra_simps split: if_splits)
  consider "d \<le> q * P" | "(q + 1) * P \<le> d" | "q * P < d" "d < (q + 1) * P"
    by linarith
  then have "\<bar>int v - int n\<bar> \<le> \<bar>int d - int n\<bar>"
  proof cases
    case 1
    then have "int d \<le> int (q * P)" by (simp only: of_nat_le_iff)
    then have "int d - int n \<le> - int r" by (simp add: n)
    with err(1) show ?thesis by linarith
  next
    case 2
    then have "int ((q + 1) * P) \<le> int d" by (simp only: of_nat_le_iff)
    then have "int P - int r \<le> int d - int n"
      by (simp add: n algebra_simps)
    with err(2) show ?thesis by linarith
  next
    case 3
    have False
    proof (cases "e \<le> k")
      case True
      then have "(2::nat) ^ k = 2 ^ (k - e) * 2 ^ e" by (simp flip: power_add)
      then have "d = (m * 2 ^ (k - e)) * P" by (simp add: d_def P_def)
      with 3 have "q * P < (m * 2 ^ (k - e)) * P" "(m * 2 ^ (k - e)) * P < (q + 1) * P"
        by simp_all
      then have "q < m * 2 ^ (k - e)" "m * 2 ^ (k - e) < q + 1"
        by (simp_all only: mult_less_cancel2)
      then show False by simp
    next
      case False
      then have ke: "Suc k \<le> e" by simp
      then have "53 < bitlength n" by (simp add: e_def)
      from significand_ge [OF this] have "2 ^ 52 \<le> q"
        by (simp add: q_def P_def e_def)
      then have low: "2 ^ 52 * P \<le> q * P" by simp
      from ke have "(2::nat) ^ Suc k \<le> 2 ^ e" by (intro power_increasing) simp_all
      then have "(2::nat) ^ 53 * 2 ^ k \<le> 2 ^ 52 * P" by (simp add: P_def)
      moreover have "d < 2 ^ 53 * 2 ^ k" using m by (simp add: d_def)
      ultimately have "d < q * P" using low by linarith
      with 3(1) show False by simp
    qed
    then show ?thesis ..
  qed
  then show ?thesis by (simp add: d_def)
qed

lemma roundTiesToEven_representable:
  assumes v: "roundTiesToEven n = Some v"
  shows "\<exists>m k. v = m * 2 ^ k \<and> m < 2 ^ 53"
proof -
  define P :: nat where "P = 2 ^ (bitlength n - 53)"
  define q where "q = n div P"
  define r where "r = n mod P"
  from roundTiesToEven_shape(1) [OF v]
  have vv: "v = (if P < 2 * r \<or> (2 * r = P \<and> odd q) then q + 1 else q) * P"
    by (simp add: P_def q_def r_def)
  have q: "q < 2 ^ 53" using significand_less [of n] by (simp add: q_def P_def)
  show ?thesis
  proof (cases "v = q * P")
    case True
    with q show ?thesis unfolding P_def by blast
  next
    case False
    with vv have v1: "v = (q + 1) * P" by (simp split: if_splits)
    show ?thesis
    proof (cases "q + 1 < 2 ^ 53")
      case True
      with v1 show ?thesis unfolding P_def by blast
    next
      case False
      with q have "q + 1 = 2 ^ 53" by simp
      with v1 have "v = 1 * 2 ^ (53 + (bitlength n - 53))"
        by (simp add: P_def power_add)
      moreover have "(1::nat) < 2 ^ 53" by simp
      ultimately show ?thesis by blast
    qed
  qed
qed

lemma roundTiesToEven_tie:
  assumes v: "roundTiesToEven n = Some v"
    and tie: "2 * \<bar>int v - int n\<bar> = 2 ^ (bitlength n - 53)"
  shows "even (v div 2 ^ (bitlength n - 53))"
proof -
  define P :: nat where "P = 2 ^ (bitlength n - 53)"
  define q where "q = n div P"
  define r where "r = n mod P"
  have n: "n = q * P + r" and rP: "r < P"
    unfolding q_def r_def by (rule div_mult_mod_eq [symmetric]) (simp add: P_def)
  from roundTiesToEven_shape(1) [OF v]
  have vv: "v = (if P < 2 * r \<or> (2 * r = P \<and> odd q) then q + 1 else q) * P"
    by (simp add: P_def q_def r_def)
  from tie have t: "2 * \<bar>int v - int n\<bar> = int P" by (simp add: P_def)
  have "2 * r = P"
    using t rP by (auto simp: vv n algebra_simps split: if_splits)
  with vv have "v = (if odd q then q + 1 else q) * P" by simp
  then have "v div P = (if odd q then q + 1 else q)" by (simp add: P_def)
  then show ?thesis by (simp add: P_def)
qed

subsection \<open>The digits that \<open>parseInt\<close> reads\<close>

lemma foldl_decimal:
  "foldl (\<lambda>n c. 10 * n + (c - 48)) 0 (ds :: nat list) =
     (\<Sum>i<length ds. (ds ! i - 48) * 10 ^ (length ds - Suc i))"
proof (induction ds rule: rev_induct)
  case Nil
  show ?case by simp
next
  case (snoc x xs)
  have "(\<Sum>i<length xs. ((xs @ [x]) ! i - 48) * 10 ^ (length (xs @ [x]) - Suc i)) =
        (\<Sum>i<length xs. 10 * ((xs ! i - 48) * 10 ^ (length xs - Suc i)))"
  proof (rule sum.cong)
    fix i assume "i \<in> {..<length xs}"
    then have i: "i < length xs" by simp
    then have "length (xs @ [x]) - Suc i = Suc (length xs - Suc i)" by simp
    with i show "((xs @ [x]) ! i - 48) * 10 ^ (length (xs @ [x]) - Suc i) =
        10 * ((xs ! i - 48) * 10 ^ (length xs - Suc i))"
      by (simp add: nth_append)
  qed simp
  then show ?case
    using snoc by (simp add: sum_distrib_left)
qed

lemma dropWhile_spaces:
  assumes "list_all isWhiteSpace ws" and "case t of [] \<Rightarrow> True | c # cs \<Rightarrow> \<not> isWhiteSpace c"
  shows "dropWhile isWhiteSpace (ws @ t) = t"
proof -
  from assms(1) have "dropWhile isWhiteSpace (ws @ t) = dropWhile isWhiteSpace t"
    by (simp add: list_all_iff)
  also from assms(2) have "\<dots> = t" by (cases t) simp_all
  finally show ?thesis .
qed

lemma takeWhile_digits:
  assumes "list_all isDigit ds" and "case r of [] \<Rightarrow> True | c # cs \<Rightarrow> \<not> isDigit c"
  shows "takeWhile isDigit (ds @ r) = ds"
proof -
  from assms(1) have "takeWhile isDigit (ds @ r) = ds @ takeWhile isDigit r"
    by (simp add: list_all_iff)
  also from assms(2) have "takeWhile isDigit r = []" by (cases r) simp_all
  finally show ?thesis by simp
qed

lemma parseInt10_digits:
  assumes ws: "list_all isWhiteSpace ws"
    and sg: "sg = [] \<or> sg = str ''+'' \<or> sg = str ''-''"
    and ds: "ds \<noteq> []" "list_all isDigit ds"
    and r: "case r of [] \<Rightarrow> True | c # cs \<Rightarrow> \<not> isDigit c"
  shows "parseInt10 (ws @ sg @ ds @ r) =
           toNumber (sg = str ''-'') (\<Sum>i<length ds. (ds ! i - 48) * 10 ^ (length ds - Suc i))"
proof -
  from ds obtain d ds' where dd: "ds = d # ds'" and d: "isDigit d"
    by (cases ds) simp_all
  have S: "dropWhile isWhiteSpace (ws @ sg @ ds @ r) = sg @ ds @ r"
    using ws
  proof (rule dropWhile_spaces)
    have "\<not> isWhiteSpace d" using d by (auto simp: isDigit_def isWhiteSpace_def)
    moreover have "\<not> isWhiteSpace 43" "\<not> isWhiteSpace 45"
      by (simp_all add: isWhiteSpace_def)
    ultimately show "case sg @ ds @ r of [] \<Rightarrow> True | c # cs \<Rightarrow> \<not> isWhiteSpace c"
      using sg by (auto simp: dd str_def)
  qed
  have Z: "takeWhile isDigit (ds @ r) = ds"
    using ds(2) r by (rule takeWhile_digits)
  have d': "d \<noteq> 43" "d \<noteq> 45"
    using d by (auto simp: isDigit_def)
  have Z0: "takeWhile isDigit (ds' @ r) = ds'"
    using Z d by (simp add: dd)
  from sg show ?thesis
  proof (elim disjE)
    assume sg0: "sg = []"
    have "dropWhile isWhiteSpace (ws @ d # ds' @ r) = d # ds' @ r"
      using S by (simp add: dd sg0)
    then show ?thesis
      unfolding foldl_decimal [symmetric]
      by (simp add: parseInt10_def Let_def ch_def str_def dd sg0 Z0 d d')
  next
    assume sg0: "sg = str ''+''"
    have "dropWhile isWhiteSpace (ws @ 43 # d # ds' @ r) = 43 # d # ds' @ r"
      using S by (simp add: dd sg0 str_def)
    then show ?thesis
      unfolding foldl_decimal [symmetric]
      by (simp add: parseInt10_def Let_def ch_def str_def dd sg0 Z0 d)
  next
    assume sg0: "sg = str ''-''"
    have "dropWhile isWhiteSpace (ws @ 45 # d # ds' @ r) = 45 # d # ds' @ r"
      using S by (simp add: dd sg0 str_def)
    then show ?thesis
      unfolding foldl_decimal [symmetric]
      by (simp add: parseInt10_def Let_def ch_def str_def dd sg0 Z0 d)
  qed
qed

lemma parseInt10_NaN:
  assumes ws: "list_all isWhiteSpace ws"
    and sg: "sg = [] \<or> sg = str ''+'' \<or> sg = str ''-''"
    and r: "case r of [] \<Rightarrow> True
            | c # cs \<Rightarrow> \<not> isDigit c \<and> (sg = [] \<longrightarrow> \<not> isWhiteSpace c \<and> c \<noteq> 43 \<and> c \<noteq> 45)"
  shows "parseInt10 (ws @ sg @ r) = NaN"
proof -
  have S: "dropWhile isWhiteSpace (ws @ sg @ r) = sg @ r"
    using ws
  proof (rule dropWhile_spaces)
    have "\<not> isWhiteSpace 43" "\<not> isWhiteSpace 45"
      by (simp_all add: isWhiteSpace_def)
    then show "case sg @ r of [] \<Rightarrow> True | c # cs \<Rightarrow> \<not> isWhiteSpace c"
      using sg r by (auto simp: str_def split: list.splits)
  qed
  from sg r show ?thesis
    by (auto simp: parseInt10_def S Let_def ch_def str_def split: list.splits)
qed

lemma MAX_FILE_SIZE_default:
  "MAX_FILE_SIZE None = Num False 5242880" "MAX_FILE_SIZE (Some []) = Num False 5242880"
proof -
  have "parseInt10 ([] @ [] @ str ''5242880'' @ []) =
          toNumber ([] = str ''-'')
            (\<Sum>i<length (str ''5242880''). (str ''5242880'' ! i - 48) *
               10 ^ (length (str ''5242880'') - Suc i))"
    by (rule parseInt10_digits) (simp_all add: str_def isDigit_def)
  moreover have "(\<Sum>i<length (str ''5242880''). (str ''5242880'' ! i - 48) *
               10 ^ (length (str ''5242880'') - Suc i)) = 5242880"
    unfolding foldl_decimal [symmetric] by (simp add: str_def)
  ultimately have "parseInt10 (str ''5242880'') = Num False 5242880"
    by (simp add: toNumber_exact str_def)
  then show "MAX_FILE_SIZE None = Num False 5242880"
    and "MAX_FILE_SIZE (Some []) = Num False 5242880"
    by (simp_all add: MAX_FILE_SIZE_def js_or_def)
qed

lemma MAX_FILE_SIZE_nonempty: "v \<noteq> [] \<Longrightarrow> MAX_FILE_SIZE (Some v) = parseInt10 v"
  by (cases v) (simp_all add: MAX_FILE_SIZE_def js_or_def)

lemma decimal_foldl: "decimal ds = foldl (\<lambda>n c. 10 * n + (c - 48)) 0 ds"
  by (simp add: decimal_def foldl_decimal ch_def)

text \<open>
  C10. \<open>MAX_FILE_SIZE\<close> is 5242880 when the environment variable is not set or is empty.
  When it is set, the value is its base-10 parse: after leading white space and an optional
  sign, the longest run of decimal digits is read as a number in base 10, with the sign, and
  made a Number; what follows the digits is ignored, and a string with no digit there gives
  \<open>NaN\<close>. The Number of a number below \<open>2^53\<close> is that number; in general it is a
  double (a significand below \<open>2^53\<close> times a power of two) and no double is nearer, so
  that the digits of \<open>2^53 + 1\<close> give \<open>2^53\<close>. Nothing but the variable enters the
  value.
\<close>

theorem MAX_FILE_SIZE_value:
  "MAX_FILE_SIZE None = Num False 5242880 \<and>
   MAX_FILE_SIZE (Some []) = Num False 5242880 \<and>
   (list_all isWhiteSpace ws \<and> (sg = [] \<or> sg = str ''+'' \<or> sg = str ''-'') \<and>
    ds \<noteq> [] \<and> list_all isDigit ds \<and> (case r of [] \<Rightarrow> True | c # cs \<Rightarrow> \<not> isDigit c) \<longrightarrow>
      MAX_FILE_SIZE (Some (ws @ sg @ ds @ r)) = toNumber (sg = str ''-'') (decimal ds)) \<and>
   (n < 2 ^ 53 \<longrightarrow> toNumber neg n = Num neg n) \<and>
   (toNumber neg n = Num b v \<longrightarrow>
      b = neg \<and> (\<exists>m k. v = m * 2 ^ k \<and> m < 2 ^ 53) \<and>
      (\<forall>m k. m < 2 ^ 53 \<longrightarrow> \<bar>int v - int n\<bar> \<le> \<bar>int (m * 2 ^ k) - int n\<bar>)) \<and>
   (list_all isWhiteSpace ws \<and> (sg = [] \<or> sg = str ''+'' \<or> sg = str ''-'') \<and>
    ws @ sg @ r \<noteq> [] \<and>
    (case r of [] \<Rightarrow> True
     | c # cs \<Rightarrow> \<not> isDigit c \<and>
         (sg = [] \<longrightarrow> \<not> isWhiteSpace c \<and> c \<noteq> ch CHR ''+'' \<and> c \<noteq> ch CHR ''-'')) \<longrightarrow>
      MAX_FILE_SIZE (Some (ws @ sg @ r)) = NaN) \<and>
   MAX_FILE_SIZE (Some (str ''9007199254740993'')) = Num False 9007199254740992"
proof (intro conjI impI)
  show "MAX_FILE_SIZE None = Num False 5242880"
    by (rule MAX_FILE_SIZE_default)
  show "MAX_FILE_SIZE (Some []) = Num False 5242880"
    by (rule MAX_FILE_SIZE_default)
next
  assume h: "list_all isWhiteSpace ws \<and> (sg = [] \<or> sg = str ''+'' \<or> sg = str ''-'') \<and>
    ds \<noteq> [] \<and> list_all isDigit ds \<and> (case r of [] \<Rightarrow> True | c # cs \<Rightarrow> \<not> isDigit c)"
  then have "ws @ sg @ ds @ r \<noteq> []" by simp
  then have "MAX_FILE_SIZE (Some (ws @ sg @ ds @ r)) = parseInt10 (ws @ sg @ ds @ r)"
    by (rule MAX_FILE_SIZE_nonempty)
  also have "\<dots> = toNumber (sg = str ''-'')
          (\<Sum>i<length ds. (ds ! i - 48) * 10 ^ (length ds - Suc i))"
    using h by (intro parseInt10_digits) simp_all
  finally show "MAX_FILE_SIZE (Some (ws @ sg @ ds @ r)) = toNumber (sg = str ''-'') (decimal ds)"
    by (simp add: decimal_def ch_def)
next
  assume "n < 2 ^ 53"
  then show "toNumber neg n = Num neg n" by (rule toNumber_exact)
next
  assume t: "toNumber neg n = Num b v"
  then have v: "roundTiesToEven n = Some v" and b: "b = neg"
    by (auto simp: toNumber_def split: option.splits)
  show "b = neg" by (rule b)
  show "\<exists>m k. v = m * 2 ^ k \<and> m < 2 ^ 53"
    using v by (rule roundTiesToEven_representable)
  show "\<forall>m k. m < 2 ^ 53 \<longrightarrow> \<bar>int v - int n\<bar> \<le> \<bar>int (m * 2 ^ k) - int n\<bar>"
    using roundTiesToEven_nearest [OF v] by blast
next
  assume h: "list_all isWhiteSpace ws \<and> (sg = [] \<or> sg = str ''+'' \<or> sg = str ''-'') \<and>
    ws @ sg @ r \<noteq> [] \<and>
    (case r of [] \<Rightarrow> True
     | c # cs \<Rightarrow> \<not> isDigit c \<and>
         (sg = [] \<longrightarrow> \<not> isWhiteSpace c \<and> c \<noteq> ch CHR ''+'' \<and> c \<noteq> ch CHR ''-''))"
  then have "MAX_FILE_SIZE (Some (ws @ sg @ r)) = parseInt10 (ws @ sg @ r)"
    by (intro MAX_FILE_SIZE_nonempty) simp
  also have "\<dots> = NaN"
    using h by (intro parseInt10_NaN) (auto simp: ch_def split: list.splits)
  finally show "MAX_FILE_SIZE (Some (ws @ sg @ r)) = NaN" .
next
  show "MAX_FILE_SIZE (Some (str ''9007199254740993'')) = Num False 9007199254740992"
    by (simp add: MAX_FILE_SIZE_def js_or_def parseInt10_def str_def ch_def isWhiteSpace_def
          isDigit_def toNumber_def roundTiesToEven_def Let_def bitlength.simps)
qed

theorem MAX_FILE_SIZE_value_witness:
  "list_all isWhiteSpace (str ''  '') \<and> list_all isDigit (str ''10485760'') \<and>
   (case str ''px'' of [] \<Rightarrow> True | c # cs \<Rightarrow> \<not> isDigit c) \<and>
   decimal (str ''10485760'') = 10485760 \<and> (10485760 :: nat) < 2 ^ 53 \<and>
   MAX_FILE_SIZE (Some (str ''  -10485760px'')) = Num True 10485760 \<and>
   MAX_FILE_SIZE (Some (str ''  -px'')) = NaN"
proof -
  have hyps: "list_all isWhiteSpace (str ''  '')" "str ''-'' = str ''-''"
    "str ''10485760'' \<noteq> []" "list_all isDigit (str ''10485760'')"
    "case str ''px'' of [] \<Rightarrow> True | c # cs \<Rightarrow> \<not> isDigit c"
    "str ''  '' @ str ''-'' @ str ''px'' \<noteq> []"
    "case str ''px'' of [] \<Rightarrow> True
     | c # cs \<Rightarrow> \<not> isDigit c \<and>
         (str ''-'' = [] \<longrightarrow> \<not> isWhiteSpace c \<and> c \<noteq> ch CHR ''+'' \<and> c \<noteq> ch CHR ''-'')"
    by (simp_all add: str_def isWhiteSpace_def isDigit_def)
  have val: "decimal (str ''10485760'') = 10485760"
    unfolding decimal_foldl by (simp add: str_def)
  have small: "(10485760 :: nat) < 2 ^ 53" by simp
  from MAX_FILE_SIZE_value [of "str ''  ''" "str ''-''" "str ''10485760''" "str ''px''"
      10485760 True True 10485760] hyps small
  have "MAX_FILE_SIZE (Some (str ''  '' @ str ''-'' @ str ''10485760'' @ str ''px'')) =
          Num True 10485760 \<and>
        MAX_FILE_SIZE (Some (str ''  '' @ str ''-'' @ str ''px'')) = NaN"
    unfolding val by simp
  with hyps(1,4,5) val small show ?thesis by (simp add: str_def)
qed

section \<open>The progress reporter\<close>

lemma length_report_progress [simp]: "length (report_progress rp cs) = length cs"
  by (induction cs arbitrary: rp) (auto simp: on_completion_def Let_def)

lemma report_progress_nth:
  "k < length cs \<Longrightarrow>
     sequence_number (report_progress rp cs ! k) = completed rp + k + 1 \<and>
     event_file (report_progress rp cs ! k) = source_id (fst (cs ! k)) \<and>
     event_total (report_progress rp cs ! k) = batch_size rp \<and>
     elapsedMs (report_progress rp cs ! k) = snd (cs ! k) - started rp \<and>
     estimatedRemainingMs (report_progress rp cs ! k) =
       estimate (snd (cs ! k) - started rp) (completed rp + k + 1) (batch_size rp)"
proof (induction cs arbitrary: rp k)
  case Nil
  then show ?case by simp
next
  case (Cons c cs)
  obtain out now where c: "c = (out, now)" by (cases c)
  show ?case
  proof (cases k)
    case 0
    then show ?thesis by (simp add: c on_completion_def Let_def)
  next
    case (Suc j)
    with Cons.prems have "j < length cs" by simp
    from Cons.IH [OF this, of "fst (on_completion rp out now)"]
    show ?thesis by (simp add: c Suc on_completion_def Let_def)
  qed
qed

lemma perm_schedule:
  assumes "distinct (map fst schedule)" and "set (map fst schedule) = {0 ..< n}"
  shows "filter (\<lambda>(i, now). i < n) schedule = schedule" and "length schedule = n"
proof -
  have "fst x \<in> set (map fst schedule)" if "x \<in> set schedule" for x
    using that by simp
  with assms(2) have "\<forall>x \<in> set schedule. fst x < n" by auto
  then show "filter (\<lambda>(i, now). i < n) schedule = schedule"
    by (auto simp: filter_id_conv)
  have "length (map fst schedule) = card (set (map fst schedule))"
    using distinct_card [OF assms(1)] by simp
  then show "length schedule = n" using assms(2) by simp
qed

lemma length_completions:
  assumes "distinct (map fst schedule)" and "set (map fst schedule) = {0 ..< length files}"
  shows "length (completions files schedule) = length files"
    and "k < length files \<Longrightarrow>
         completions files schedule ! k =
           (fst (schedule ! k), task_outcome (files ! fst (schedule ! k)), snd (schedule ! k))"
  using perm_schedule [OF assms] by (simp_all add: completions_def case_prod_unfold)

lemma source_id_task_outcome [simp]: "source_id (task_outcome file) = file_name file"
  by (simp add: task_outcome_def split: sum.splits)

text \<open>
  C5. In a batch of N documents in which every task completes exactly once, whatever the
  order of completion, the sequence numbers of the progress events are 1, 2, ..., N in
  the order of emission: the k-th event emitted has the number k, the count of completions
  so far, and names the file of the task that completed k-th, whatever its submission index.
\<close>

theorem sequence_numbers:
  assumes "distinct (map fst schedule)"
      and "set (map fst schedule) = {0 ..< length files}"
  shows "map sequence_number (fst (run_batch files start schedule)) = [1 ..< Suc (length files)] \<and>
         (\<forall>k < length files.
            sequence_number (fst (run_batch files start schedule) ! k) = k + 1 \<and>
            event_file (fst (run_batch files start schedule) ! k) =
              file_name (files ! fst (schedule ! k)))"
proof -
  let ?cs = "map snd (completions files schedule)"
  let ?rp = "\<lparr>completed = 0, succeeded = 0, failed = 0, started = start,
               batch_size = length files\<rparr>"
  have evs: "fst (run_batch files start schedule) = report_progress ?rp ?cs"
    by (simp add: run_batch_def Let_def)
  have len: "length ?cs = length files"
    using length_completions(1) [OF assms] by simp
  have nth: "sequence_number (report_progress ?rp ?cs ! k) = k + 1 \<and>
             event_file (report_progress ?rp ?cs ! k) = file_name (files ! fst (schedule ! k))"
    if "k < length files" for k
    using report_progress_nth [of k ?cs ?rp] that len
      length_completions(2) [OF assms that] length_completions(1) [OF assms]
    by simp
  have "map sequence_number (report_progress ?rp ?cs) = [1 ..< Suc (length files)]"
    by (rule nth_equalityI) (use nth len in \<open>auto simp del: upt_Suc simp add: nth_upt\<close>)
  with nth show ?thesis unfolding evs by blast
qed

theorem sequence_numbers_witness:
  "distinct (map fst ex_schedule) \<and>
   set (map fst ex_schedule) = {0 ..< length ex_batch} \<and>
   map sequence_number (fst (run_batch ex_batch 0 ex_schedule)) = [1, 2] \<and>
   event_file (fst (run_batch ex_batch 0 ex_schedule) ! 0) = str ''none.pdf''"
proof -
  have d: "distinct (map fst ex_schedule)"
    by (simp add: ex_schedule_def)
  have s: "set (map fst ex_schedule) = {0 ..< length ex_batch}"
    by (auto simp: ex_schedule_def ex_batch_def)
  have n: "ex_batch ! fst (ex_schedule ! 0) = ex_file_none"
    by (simp add: ex_schedule_def ex_batch_def)
  from sequence_numbers [OF d s, of 0] d s n show ?thesis
    by (simp add: ex_batch_def ex_file_none_def upt_rec)
qed

section \<open>The batch report\<close>

lemma fold_add_outcome:
  "totalProcessed (fold add_outcome outs rep) = totalProcessed rep + length outs \<and>
   totalSuccess (fold add_outcome outs rep) = totalSuccess rep + length (filter is_success outs) \<and>
   totalFailure (fold add_outcome outs rep) =
     totalFailure rep + length (filter (\<lambda>out. \<not> is_success out) outs)"
proof (induction outs arbitrary: rep)
  case Nil
  then show ?case by simp
next
  case (Cons out outs)
  show ?case by (cases out) (simp_all add: Cons.IH)
qed

text \<open>
  C6. For every batch of N documents (N may be 0) and every run of it, the report has
  \<open>totalProcessed = N\<close> and \<open>totalSuccess + totalFailure = totalProcessed\<close>: the report
  built from any state of the aggregator counts each submission index once, as a success
  when its outcome is one and as a failure otherwise.
\<close>

theorem batch_totals:
  "totalProcessed (snd (run_batch files start schedule)) = length files \<and>
   totalSuccess (snd (run_batch files start schedule)) +
     totalFailure (snd (run_batch files start schedule)) =
     totalProcessed (snd (run_batch files start schedule)) \<and>
   totalSuccess (build_report files agg) =
     length (filter (\<lambda>i. is_success (outcome_at files agg i)) [0 ..< length files]) \<and>
   totalFailure (build_report files agg) =
     length (filter (\<lambda>i. \<not> is_success (outcome_at files agg i)) [0 ..< length files]) \<and>
   totalProcessed (build_report files agg) = length files \<and>
   totalSuccess (build_report files agg) + totalFailure (build_report files agg) =
     totalProcessed (build_report files agg)"
proof -
  have tot: "totalProcessed (build_report files a) = length files \<and>
        totalSuccess (build_report files a) =
          length (filter (\<lambda>i. is_success (outcome_at files a i)) [0 ..< length files]) \<and>
        totalFailure (build_report files a) =
          length (filter (\<lambda>i. \<not> is_success (outcome_at files a i)) [0 ..< length files])" for a
    using fold_add_outcome [of "map (outcome_at files a) [0 ..< length files]" empty_report]
    by (simp add: build_report_def empty_report_def filter_map comp_def)
  have sum: "totalSuccess (build_report files a) + totalFailure (build_report files a) =
      totalProcessed (build_report files a)" for a
    using tot [of a]
      sum_length_filter_compl [of "\<lambda>i. is_success (outcome_at files a i)" "[0 ..< length files]"]
    by simp
  have rep: "snd (run_batch files start schedule) =
      build_report files (aggregate (completions files schedule))"
    by (simp add: run_batch_def Let_def)
  show ?thesis using tot sum unfolding rep by blast
qed

section \<open>The estimate of the remaining time\<close>

lemma estimate_formula:
  "estimate e c n = e / of_nat c * (of_nat n - of_nat c)"
  by (simp add: estimate_def)

lemma eta_nth:
  assumes "distinct (map fst schedule)"
      and "set (map fst schedule) = {0 ..< length files}"
      and "k < length files"
  shows "elapsedMs (fst (run_batch files start schedule) ! k) = snd (schedule ! k) - start"
    and "estimatedRemainingMs (fst (run_batch files start schedule) ! k) =
           estimate (snd (schedule ! k) - start) (k + 1) (length files)"
proof -
  let ?cs = "map snd (completions files schedule)"
  let ?rp = "\<lparr>completed = 0, succeeded = 0, failed = 0, started = start,
               batch_size = length files\<rparr>"
  have evs: "fst (run_batch files start schedule) = report_progress ?rp ?cs"
    by (simp add: run_batch_def Let_def)
  have len: "length ?cs = length files"
    using length_completions(1) [OF assms(1,2)] by simp
  have "elapsedMs (report_progress ?rp ?cs ! k) = snd (schedule ! k) - start \<and>
        estimatedRemainingMs (report_progress ?rp ?cs ! k) =
          estimate (snd (schedule ! k) - start) (k + 1) (length files)"
    using report_progress_nth [of k ?cs ?rp] assms(3) len
      length_completions(2) [OF assms] length_completions(1) [OF assms(1,2)]
    by simp
  then show "elapsedMs (fst (run_batch files start schedule) ! k) = snd (schedule ! k) - start"
    and "estimatedRemainingMs (fst (run_batch files start schedule) ! k) =
           estimate (snd (schedule ! k) - start) (k + 1) (length files)"
    unfolding evs by simp_all
qed

lemma uniform_schedule_perm:
  "distinct (map fst (uniform_schedule c d start n))"
  "set (map fst (uniform_schedule c d start n)) = {0 ..< n}"
  "k < n \<Longrightarrow> snd (uniform_schedule c d start n ! k) = start + d * of_nat (k div c + 1)"
  by (simp_all add: uniform_schedule_def comp_def)

text \<open>
  C7, as amended. On the k-th completion of a batch of N tasks the event carries
  \<open>elapsedMs = now - start\<close> and \<open>estimatedRemainingMs = elapsedMs / k * (N - k)\<close>, which
  is 0 at \<open>k = N\<close>. When the completions are evenly spaced, the k-th at \<open>start + k * d\<close>
  with \<open>d > 0\<close>, as for tasks of uniform latency \<open>d\<close> run one at a time, the estimate of the
  k-th event is \<open>d * (N - k)\<close>: it decreases strictly from one event to the next and is 0
  at the last one.
\<close>

theorem eta_estimate:
  assumes "distinct (map fst schedule)"
      and "set (map fst schedule) = {0 ..< length files}"
  shows "(\<forall>k < length files.
            elapsedMs (fst (run_batch files start schedule) ! k) = snd (schedule ! k) - start \<and>
            estimatedRemainingMs (fst (run_batch files start schedule) ! k) =
              elapsedMs (fst (run_batch files start schedule) ! k) / of_nat (k + 1) *
                (of_nat (length files) - of_nat (k + 1)) \<and>
            (k + 1 = length files \<longrightarrow>
               estimatedRemainingMs (fst (run_batch files start schedule) ! k) = 0)) \<and>
         ((\<forall>k < length files. snd (schedule ! k) = start + of_nat (k + 1) * d) \<and> 0 < d \<longrightarrow>
            (\<forall>k < length files.
               estimatedRemainingMs (fst (run_batch files start schedule) ! k) =
                 d * of_nat (length files - (k + 1))) \<and>
            (\<forall>j k. j < k \<and> k < length files \<longrightarrow>
               estimatedRemainingMs (fst (run_batch files start schedule) ! k) <
               estimatedRemainingMs (fst (run_batch files start schedule) ! j)) \<and>
            (files \<noteq> [] \<longrightarrow>
               estimatedRemainingMs (last (fst (run_batch files start schedule))) = 0)) \<and>
         (schedule = uniform_schedule 1 d start (length files) \<longrightarrow>
            (\<forall>k < length files. snd (schedule ! k) = start + of_nat (k + 1) * d))"
proof -
  let ?evs = "fst (run_batch files start schedule)"
  let ?n = "length files"
  note nth = eta_nth [OF assms]
  have len: "length ?evs = ?n"
    using length_completions(1) [OF assms] by (simp add: run_batch_def Let_def)
  have general: "\<forall>k < ?n.
      elapsedMs (?evs ! k) = snd (schedule ! k) - start \<and>
      estimatedRemainingMs (?evs ! k) =
        elapsedMs (?evs ! k) / of_nat (k + 1) * (of_nat ?n - of_nat (k + 1)) \<and>
      (k + 1 = ?n \<longrightarrow> estimatedRemainingMs (?evs ! k) = 0)"
  proof (intro allI impI)
    fix k assume k: "k < ?n"
    have "k + 1 = ?n \<longrightarrow> estimate (snd (schedule ! k) - start) (k + 1) ?n = 0"
      by (simp add: estimate_def)
    with nth [OF k] estimate_formula [of "snd (schedule ! k) - start" "k + 1" ?n]
    show "elapsedMs (?evs ! k) = snd (schedule ! k) - start \<and>
      estimatedRemainingMs (?evs ! k) =
        elapsedMs (?evs ! k) / of_nat (k + 1) * (of_nat ?n - of_nat (k + 1)) \<and>
      (k + 1 = ?n \<longrightarrow> estimatedRemainingMs (?evs ! k) = 0)"
      by simp
  qed
  have uniform: "(\<forall>k < ?n. estimatedRemainingMs (?evs ! k) = d * of_nat (?n - (k + 1))) \<and>
      (\<forall>j k. j < k \<and> k < ?n \<longrightarrow>
         estimatedRemainingMs (?evs ! k) < estimatedRemainingMs (?evs ! j)) \<and>
      (files \<noteq> [] \<longrightarrow> estimatedRemainingMs (last ?evs) = 0)"
    if times: "\<forall>k < ?n. snd (schedule ! k) = start + of_nat (k + 1) * d" and d: "0 < d"
  proof -
    have eta: "estimatedRemainingMs (?evs ! k) = d * of_nat (?n - (k + 1))" if k: "k < ?n" for k
    proof -
      have "estimatedRemainingMs (?evs ! k) = estimate (of_nat (k + 1) * d) (k + 1) ?n"
        using nth(2) [OF k] times k by simp
      also have "\<dots> = d * (of_nat ?n - of_nat (k + 1))"
        by (simp add: estimate_formula)
      also have "\<dots> = d * of_nat (?n - (k + 1))"
        using k by (simp add: of_nat_diff)
      finally show ?thesis .
    qed
    have dec: "estimatedRemainingMs (?evs ! k) < estimatedRemainingMs (?evs ! j)"
      if "j < k" "k < ?n" for j k
    proof -
      have "?n - (k + 1) < ?n - (j + 1)" using that by arith
      then have "d * of_nat (?n - (k + 1)) < d * of_nat (?n - (j + 1))"
        using d by simp
      then show ?thesis using eta [of k] eta [of j] that by simp
    qed
    have lst: "estimatedRemainingMs (last ?evs) = 0" if "files \<noteq> []"
    proof -
      from that len have "last ?evs = ?evs ! (?n - 1)"
        using last_conv_nth [of ?evs] by fastforce
      with eta [of "?n - 1"] that show ?thesis by simp
    qed
    from eta dec lst show ?thesis by blast
  qed
  have one: "\<forall>k < ?n. snd (schedule ! k) = start + of_nat (k + 1) * d"
    if "schedule = uniform_schedule 1 d start ?n"
    using that by (simp add: uniform_schedule_perm(3) mult.commute)
  from general uniform one show ?thesis by blast
qed

theorem eta_estimate_witness:
  "distinct (map fst ex_schedule) \<and>
   set (map fst ex_schedule) = {0 ..< length ex_batch} \<and>
   ex_schedule = [(1, 150), (0, 300)] \<and>
   snd (ex_schedule ! 0) = 0 + of_nat (0 + 1) * 150 \<and>
   snd (ex_schedule ! 1) = 0 + of_nat (1 + 1) * 150 \<and>
   estimatedRemainingMs (fst (run_batch ex_batch 0 ex_schedule) ! 0) = 150 \<and>
   estimatedRemainingMs (fst (run_batch ex_batch 0 ex_schedule) ! 1) = 0 \<and>
   estimatedRemainingMs (fst (run_batch ex_batch 0 ex_schedule) ! 0) = 150 / 1 * (2 - 1)"
proof -
  have d: "distinct (map fst ex_schedule)"
    by (simp add: ex_schedule_def)
  have s: "set (map fst ex_schedule) = {0 ..< length ex_batch}"
    by (auto simp: ex_schedule_def ex_batch_def)
  have len: "length ex_batch = 2"
    by (simp add: ex_batch_def)
  have t: "\<forall>k < length ex_batch. snd (ex_schedule ! k) = 0 + of_nat (k + 1) * 150"
    by (simp add: len ex_schedule_def less_Suc_eq numeral_2_eq_2)
  have pos: "(0::rat) < 150"
    by simp
  from eta_estimate [OF d s, of 0 150] t pos
  have e: "\<forall>k < length ex_batch.
      estimatedRemainingMs (fst (run_batch ex_batch 0 ex_schedule) ! k) =
        150 * of_nat (length ex_batch - (k + 1))"
    by blast
  from e have e0: "estimatedRemainingMs (fst (run_batch ex_batch 0 ex_schedule) ! 0) = 150"
    by (simp add: len)
  from e have e1: "estimatedRemainingMs (fst (run_batch ex_batch 0 ex_schedule) ! 1) = 0"
    by (simp add: len)
  from d s e0 e1 show ?thesis
    by (simp add: ex_schedule_def)
qed

text \<open>
  The claim C7 as it was stated fails when more than one task runs at a time: seven
  tasks of latency 100 on two slots complete at 100, 100, 200, 200, 300, 300 and 400, and
  the estimate rises from the second event (250) to the third (800/3).
\<close>

theorem eta_waves_counterexample:
  "estimatedRemainingMs (fst (run_batch ex_batch7 0 (uniform_schedule 2 100 0 7)) ! 1) = 250 \<and>
   estimatedRemainingMs (fst (run_batch ex_batch7 0 (uniform_schedule 2 100 0 7)) ! 2) = 800 / 3 \<and>
   estimatedRemainingMs (fst (run_batch ex_batch7 0 (uniform_schedule 2 100 0 7)) ! 1) <
   estimatedRemainingMs (fst (run_batch ex_batch7 0 (uniform_schedule 2 100 0 7)) ! 2)"
proof -
  have len: "length ex_batch7 = 7"
    by (simp add: ex_batch7_def)
  have d: "distinct (map fst (uniform_schedule 2 100 0 7))"
    by (rule uniform_schedule_perm)
  have s: "set (map fst (uniform_schedule 2 100 0 7)) = {0 ..< length ex_batch7}"
    unfolding len by (rule uniform_schedule_perm)
  have e1: "estimatedRemainingMs (fst (run_batch ex_batch7 0 (uniform_schedule 2 100 0 7)) ! 1) = 250"
    using eta_nth(2) [OF d s, of 1 0]
    by (simp add: len uniform_schedule_perm(3) estimate_def)
  have e2: "estimatedRemainingMs (fst (run_batch ex_batch7 0 (uniform_schedule 2 100 0 7)) ! 2) = 800 / 3"
    using eta_nth(2) [OF d s, of 2 0]
    by (simp add: len uniform_schedule_perm(3) estimate_def)
  show ?thesis unfolding e1 e2 by simp
qed


section \<open>Independence of the report from the order of completion\<close>



subsection \<open>The results do not depend on the state of the runtime\<close>























section \<open>The sheet of \<open>generarExcel\<close>\<close>

lemma write_headers_row_apply:
  "write_headers_row r f sh (r', c') =
     (if r' = r \<and> 1 \<le> c' \<and> c' \<le> 7 then Some (f (headers ! (c' - 1))) else sh (r', c'))"
proof -
  have "1 \<le> c' \<and> c' \<le> 7 \<longleftrightarrow> c' = 1 \<or> c' = 2 \<or> c' = 3 \<or> c' = 4 \<or> c' = 5 \<or> c' = 6 \<or> c' = 7"
    by arith
  then show ?thesis
    by (auto simp: write_headers_row_def forEach_def headers_def cell_value_def)
qed

lemma write_rows:
  "fold (\<lambda>(i, x). write_headers_row (i + 2) (celda x)) (enumerate n xs) sh (r, c) =
   (if n + 2 \<le> r \<and> r < n + 2 + length xs \<and> 1 \<le> c \<and> c \<le> 7
    then Some (celda (xs ! (r - (n + 2))) (headers ! (c - 1)))
    else sh (r, c))"
proof (induction xs arbitrary: n sh)
  case Nil
  then show ?case by auto
next
  case (Cons x xs)
  have step: "fold (\<lambda>(i, x). write_headers_row (i + 2) (celda x)) (enumerate n (x # xs)) sh =
      fold (\<lambda>(i, x). write_headers_row (i + 2) (celda x)) (enumerate (Suc n) xs)
        (write_headers_row (n + 2) (celda x) sh)"
    by simp
  show ?case
  proof (cases "r = n + 2")
    case True
    then show ?thesis
      unfolding step Cons.IH write_headers_row_apply by simp
  next
    case False
    then have "(x # xs) ! (r - (n + 2)) = xs ! (r - (Suc n + 2))" if "n + 2 \<le> r"
      using that by (simp add: nth_Cons' Suc_diff_le)
    with False show ?thesis
      unfolding step Cons.IH write_headers_row_apply by auto
  qed
qed

lemma celda_cases:
  "celda r h = (case r h of None \<Rightarrow> JString [] | Some JUndefined \<Rightarrow> JString []
                    | Some JNull \<Rightarrow> JString [] | Some v \<Rightarrow> v)"
  by (simp add: celda_def get_prop_def nullish_or_def split: option.splits jsval.splits)

lemma generarExcel_cells:
  assumes "registros \<noteq> []"
  shows "\<exists>sh. generarExcel registros = Inr sh \<and>
     (\<forall>r c. sh (r, c) =
       (if 2 \<le> r \<and> r < 2 + length registros \<and> 1 \<le> c \<and> c \<le> 7
        then Some (celda (registros ! (r - 2)) (headers ! (c - 1)))
        else if r = 1 \<and> 1 \<le> c \<and> c \<le> 7 then Some (JString (headers ! (c - 1))) else None))"
proof -
  let ?sh = "fold (\<lambda>(i, x). write_headers_row (i + 2) (celda x)) (enumerate 0 registros)
               (write_headers_row 1 JString Map.empty)"
  from assms have "generarExcel registros = Inr ?sh"
    by (simp add: generarExcel_def forEach_def [of registros] write_headers_row_def celda_def
        Let_def)
  moreover have "?sh (r, c) =
       (if 2 \<le> r \<and> r < 2 + length registros \<and> 1 \<le> c \<and> c \<le> 7
        then Some (celda (registros ! (r - 2)) (headers ! (c - 1)))
        else if r = 1 \<and> 1 \<le> c \<and> c \<le> 7 then Some (JString (headers ! (c - 1))) else None)"
    for r c
    unfolding write_rows write_headers_row_apply by (auto simp: numeral_2_eq_2)
  ultimately show ?thesis by blast
qed

text \<open>
  C9. \<open>generarExcel\<close> throws on an empty list of records. Otherwise the first row of the
  sheet holds the seven headers in order, row \<open>i + 2\<close> holds for each header the value of
  record \<open>i\<close> under that key, the empty string when the key is missing or its value is
  \<open>null\<close> or \<open>undefined\<close>, and no other cell is written.
\<close>

theorem generarExcel_sheet:
  "generarExcel [] = Inl SinRegistros \<and>
   (registros \<noteq> [] \<longrightarrow>
      (\<exists>sh. generarExcel registros = Inr sh \<and>
         (\<forall>c < 7. sh (1, c + 1) = Some (JString (headers ! c))) \<and>
         (\<forall>i < length registros. \<forall>c < 7.
            sh (i + 2, c + 1) =
              Some (case (registros ! i) (headers ! c) of
                      None \<Rightarrow> JString []
                    | Some JUndefined \<Rightarrow> JString []
                    | Some JNull \<Rightarrow> JString []
                    | Some v \<Rightarrow> v)) \<and>
         (\<forall>r c. sh (r, c) \<noteq> None \<longleftrightarrow>
            1 \<le> r \<and> r \<le> length registros + 1 \<and> 1 \<le> c \<and> c \<le> 7)))"
proof (intro conjI impI)
  show "generarExcel [] = Inl SinRegistros"
    by (simp add: generarExcel_def)
next
  assume "registros \<noteq> []"
  from generarExcel_cells [OF this] obtain sh where gen: "generarExcel registros = Inr sh"
    and cells: "\<And>r c. sh (r, c) =
       (if 2 \<le> r \<and> r < 2 + length registros \<and> 1 \<le> c \<and> c \<le> 7
        then Some (celda (registros ! (r - 2)) (headers ! (c - 1)))
        else if r = 1 \<and> 1 \<le> c \<and> c \<le> 7 then Some (JString (headers ! (c - 1))) else None)"
    by blast
  have 1: "\<forall>c < 7. sh (1, c + 1) = Some (JString (headers ! c))"
    by (simp add: cells)
  have 2: "\<forall>i < length registros. \<forall>c < 7.
            sh (i + 2, c + 1) =
              Some (case (registros ! i) (headers ! c) of
                      None \<Rightarrow> JString []
                    | Some JUndefined \<Rightarrow> JString []
                    | Some JNull \<Rightarrow> JString []
                    | Some v \<Rightarrow> v)"
    by (simp add: cells celda_cases)
  have 3: "\<forall>r c. sh (r, c) \<noteq> None \<longleftrightarrow>
            1 \<le> r \<and> r \<le> length registros + 1 \<and> 1 \<le> c \<and> c \<le> 7"
    unfolding cells by auto
  from gen 1 2 3 show "\<exists>sh. generarExcel registros = Inr sh \<and>
         (\<forall>c < 7. sh (1, c + 1) = Some (JString (headers ! c))) \<and>
         (\<forall>i < length registros. \<forall>c < 7.
            sh (i + 2, c + 1) =
              Some (case (registros ! i) (headers ! c) of
                      None \<Rightarrow> JString []
                    | Some JUndefined \<Rightarrow> JString []
                    | Some JNull \<Rightarrow> JString []
                    | Some v \<Rightarrow> v)) \<and>
         (\<forall>r c. sh (r, c) \<noteq> None \<longleftrightarrow>
            1 \<le> r \<and> r \<le> length registros + 1 \<and> 1 \<le> c \<and> c \<le> 7)"
    by (intro exI [of _ sh] conjI)
qed

theorem generarExcel_sheet_witness:
  "[ex_registro] \<noteq> [] \<and>
   (\<exists>sh. generarExcel [ex_registro] = Inr sh \<and>
      sh (1, 1) = Some (JString kNombrePDF) \<and>
      sh (1, 7) = Some (JString kFolio) \<and>
      sh (2, 1) = Some (JString (str ''rt.pdf'')) \<and>
      sh (2, 2) = Some (JString []) \<and>
      sh (2, 7) = Some (JString []) \<and>
      sh (3, 1) = None)"
proof -
  from generarExcel_sheet [of "[ex_registro]"] obtain sh where
    gen: "generarExcel [ex_registro] = Inr sh"
    and hdr: "\<forall>c < 7. sh (1, c + 1) = Some (JString (headers ! c))"
    and row: "\<forall>i < length [ex_registro]. \<forall>c < 7.
            sh (i + 2, c + 1) =
              Some (case ([ex_registro] ! i) (headers ! c) of
                      None \<Rightarrow> JString []
                    | Some JUndefined \<Rightarrow> JString []
                    | Some JNull \<Rightarrow> JString []
                    | Some v \<Rightarrow> v)"
    and dom: "\<forall>r c. sh (r, c) \<noteq> None \<longleftrightarrow> 1 \<le> r \<and> r \<le> length [ex_registro] + 1 \<and> 1 \<le> c \<and> c \<le> 7"
    by blast
  from hdr [rule_format, of 0] hdr [rule_format, of 6]
  have h: "sh (1, 1) = Some (JString kNombrePDF)" "sh (1, 7) = Some (JString kFolio)"
    by (simp_all add: headers_def)
  from row [rule_format, of 0 0] row [rule_format, of 0 1] row [rule_format, of 0 6]
  have r: "sh (2, 1) = Some (JString (str ''rt.pdf''))" "sh (2, 2) = Some (JString [])"
    "sh (2, 7) = Some (JString [])"
    by (simp_all add: headers_def ex_registro_def keys_neq numeral_2_eq_2)
  from dom [rule_format, of 3 1] have d: "sh (3, 1) = None"
    by simp
  from gen h r d show ?thesis by simp
qed


section \<open>The matcher\<close>

lemma le_length_takeWhile:
  "k \<le> length (takeWhile P xs) \<longleftrightarrow> k \<le> length xs \<and> (\<forall>x \<in> set (take k xs). P x)"
proof (induction xs arbitrary: k)
  case Nil
  then show ?case by simp
next
  case (Cons x xs)
  show ?case
  proof (cases k)
    case 0
    then show ?thesis by simp
  next
    case (Suc j)
    then show ?thesis using Cons.IH [of j] by auto
  qed
qed

lemma le_run:
  "k \<le> run ic a hi cs \<longleftrightarrow>
     k \<le> length cs \<and> (\<forall>c \<in> set (take k cs). atom_matches ic a c) \<and>
     (case hi of None \<Rightarrow> True | Some h \<Rightarrow> k \<le> h)"
  by (auto simp: run_def Let_def le_length_takeWhile split: option.splits)

lemma in_matcher_Rep:
  "s' \<in> set (matcher ic (Rep a lo hi g) s) \<longleftrightarrow>
     (\<exists>k. lo \<le> k \<and> k \<le> run ic a hi (rest s) \<and> s' = advance k s)"
  by (auto simp: Let_def)

declare matcher.simps(8) [simp del]

lemma in_matcher_Seq:
  "s' \<in> set (matcher ic (Seq r1 r2) s) \<longleftrightarrow>
     (\<exists>y \<in> set (matcher ic r1 s). s' \<in> set (matcher ic r2 y))"
  by auto

lemma in_matcher_Group:
  "s' \<in> set (matcher ic (Group n r) s) \<longleftrightarrow>
     (\<exists>y \<in> set (matcher ic r s).
        s' = y\<lparr>caps := (caps y)(n \<mapsto> take (pos y - pos s) (rest s))\<rparr>)"
  by auto

text \<open>Every way a pattern matches consumes a prefix of the input.\<close>

lemma matcher_consumes:
  "s' \<in> set (matcher ic r s) \<Longrightarrow> \<exists>w. rest s = w @ rest s' \<and> pos s' = pos s + length w"
proof (induction r arbitrary: s s')
  case (Lit w)
  then have "lit_matches ic w (rest s)" and s': "s' = advance (length w) s"
    by (auto split: if_splits)
  have "length w \<le> length cs" if "lit_matches ic w cs" for cs
    using that by (induction ic w cs rule: lit_matches.induct) auto
  from this [OF \<open>lit_matches ic w (rest s)\<close>]
  have "rest s = take (length w) (rest s) @ rest s' \<and> pos s' = pos s + length (take (length w) (rest s))"
    by (simp add: s' advance_def)
  then show ?case by blast
next
  case (Atom a)
  then show ?case
    by (cases "rest s") (auto simp: advance_def split: if_splits)
next
  case Bol
  then show ?case by (auto split: if_splits)
next
  case Eol
  then show ?case by (auto split: if_splits)
next
  case (Seq r1 r2)
  from Seq.prems obtain y where y: "y \<in> set (matcher ic r1 s)" and s': "s' \<in> set (matcher ic r2 y)"
    by auto
  from Seq.IH(1) [OF y] Seq.IH(2) [OF s'] show ?case
    by (metis append.assoc length_append add.assoc)
next
  case (Alt r1 r2)
  then show ?case by auto
next
  case (Opt r)
  then show ?case by auto
next
  case (Rep a lo hi g)
  then obtain k where k: "k \<le> run ic a hi (rest s)" and s': "s' = advance k s"
    unfolding in_matcher_Rep by blast
  from k have "k \<le> length (rest s)" by (simp add: le_run)
  then have "rest s = take k (rest s) @ rest s' \<and> pos s' = pos s + length (take k (rest s))"
    by (simp add: s' advance_def)
  then show ?case by blast
next
  case (Group n r)
  then show ?case by (auto simp: in_matcher_Group)
next
  case (Look r)
  then show ?case by (auto split: list.splits)
qed

text \<open>A capture that is defined stays defined.\<close>

lemma caps_stay_defined:
  "s' \<in> set (matcher ic r s) \<Longrightarrow> caps s n \<noteq> None \<Longrightarrow> caps s' n \<noteq> None"
proof (induction r arbitrary: s s')
  case (Seq r1 r2)
  then show ?case by (auto simp del: not_None_eq) blast
next
  case (Look r)
  from Look.prems(1) obtain y ys where "matcher ic r s = y # ys" and "s' = s\<lparr>caps := caps y\<rparr>"
    by (cases "matcher ic r s") auto
  with Look.IH [of y s] Look.prems(2) show ?case by simp
qed (auto simp: advance_def in_matcher_Rep split: if_splits list.splits)

lemma exec_from_Some:
  "exec_from ic r i cs = Some s' \<Longrightarrow>
     \<exists>k \<le> length cs. s' \<in> set (matcher ic r \<lparr>pos = i + k, rest = drop k cs, caps = (\<lambda>_. None)\<rparr>)"
proof (induction cs arbitrary: i)
  case Nil
  then show ?case
    by (auto simp: exec_from.simps split: list.splits)
next
  case (Cons c cs)
  show ?case
  proof (cases "matcher ic r \<lparr>pos = i, rest = c # cs, caps = (\<lambda>_. None)\<rparr>")
    case Nil
    with Cons.prems have "exec_from ic r (Suc i) cs = Some s'"
      by (simp add: exec_from.simps [of ic r i])
    from Cons.IH [OF this] obtain k where "k \<le> length cs"
      "s' \<in> set (matcher ic r \<lparr>pos = Suc i + k, rest = drop k cs, caps = (\<lambda>_. None)\<rparr>)"
      by blast
    then show ?thesis by (intro exI [of _ "Suc k"]) simp
  next
    case (Cons y ys)
    with Cons.prems have "s' = y" by (simp add: exec_from.simps [of ic r i])
    with Cons show ?thesis by (intro exI [of _ 0]) simp
  qed
qed

lemma exec_from_None:
  "exec_from ic r i cs = None \<longleftrightarrow>
     (\<forall>k \<le> length cs. matcher ic r \<lparr>pos = i + k, rest = drop k cs, caps = (\<lambda>_. None)\<rparr> = [])"
proof (induction cs arbitrary: i)
  case Nil
  then show ?case
    by (auto simp: exec_from.simps split: list.splits)
next
  case (Cons c cs)
  have "(\<forall>k \<le> length (c # cs). matcher ic r \<lparr>pos = i + k, rest = drop k (c # cs), caps = (\<lambda>_. None)\<rparr> = []) \<longleftrightarrow>
        matcher ic r \<lparr>pos = i, rest = c # cs, caps = (\<lambda>_. None)\<rparr> = [] \<and>
        (\<forall>k \<le> length cs. matcher ic r \<lparr>pos = Suc i + k, rest = drop k cs, caps = (\<lambda>_. None)\<rparr> = [])"
    (is "?L \<longleftrightarrow> ?A \<and> ?B")
  proof
    assume l: ?L
    from l [rule_format, of 0] have ?A by simp
    moreover have ?B
    proof (intro allI impI)
      fix k assume "k \<le> length cs"
      with l [rule_format, of "Suc k"] show
        "matcher ic r \<lparr>pos = Suc i + k, rest = drop k cs, caps = (\<lambda>_. None)\<rparr> = []" by simp
    qed
    ultimately show "?A \<and> ?B" ..
  next
    assume ab: "?A \<and> ?B"
    show ?L
    proof (intro allI impI)
      fix k assume k: "k \<le> length (c # cs)"
      show "matcher ic r \<lparr>pos = i + k, rest = drop k (c # cs), caps = (\<lambda>_. None)\<rparr> = []"
      proof (cases k)
        case 0
        with ab show ?thesis by simp
      next
        case (Suc j)
        with k ab [THEN conjunct2, rule_format, of j] show ?thesis by simp
      qed
    qed
  qed
  then show ?case
    using Cons.IH [of "Suc i"]
    by (simp add: exec_from.simps [of ic r i "c # cs"] split: list.splits)
qed


section \<open>Character classes\<close>

lemma canon_space [simp]: "isWhiteSpace a \<Longrightarrow> canonicalize ic a = a"
  by (auto simp: canonicalize_def toUpperCase_def isWhiteSpace_def Let_def)

lemma canon_digit [simp]: "isDigit a \<Longrightarrow> canonicalize ic a = a"
  by (auto simp: canonicalize_def toUpperCase_def isDigit_def Let_def)

lemma canon_is_space: "isWhiteSpace (canonicalize ic c) \<longleftrightarrow> isWhiteSpace c"
  by (auto simp: canonicalize_def toUpperCase_def isWhiteSpace_def Let_def)

lemma canon_is_digit: "isDigit (canonicalize ic c) \<longleftrightarrow> isDigit c"
  by (auto simp: canonicalize_def toUpperCase_def isDigit_def Let_def)

lemma space_caseless:
  "(\<exists>a. isWhiteSpace a \<and> canonicalize ic a = canonicalize ic c) \<longleftrightarrow> isWhiteSpace c"
  by (metis canon_space canon_is_space)

lemma digit_caseless:
  "(\<exists>a. isDigit a \<and> canonicalize ic a = canonicalize ic c) \<longleftrightarrow> isDigit c"
  by (metis canon_digit canon_is_digit)

lemma not_space_caseless:
  "(\<exists>a. \<not> isWhiteSpace a \<and> canonicalize ic a = canonicalize ic c) \<longleftrightarrow> \<not> isWhiteSpace c"
  by (metis canon_space canon_is_space)

lemma canon_upper_AZ:
  "(\<exists>a. 65 \<le> a \<and> a < 91 \<and> canonicalize True a = canonicalize True c) \<longleftrightarrow>
     (65 \<le> c \<and> c \<le> 90) \<or> (97 \<le> c \<and> c \<le> 122)"
proof
  assume "\<exists>a. 65 \<le> a \<and> a < 91 \<and> canonicalize True a = canonicalize True c"
  then obtain a where a: "65 \<le> a" "a < 91" and eq: "canonicalize True a = canonicalize True c"
    by blast
  from a have "canonicalize True a = a"
    by (simp add: canonicalize_def toUpperCase_def)
  with eq a have "65 \<le> canonicalize True c \<and> canonicalize True c < 91" by simp
  then show "(65 \<le> c \<and> c \<le> 90) \<or> (97 \<le> c \<and> c \<le> 122)"
    by (auto simp: canonicalize_def toUpperCase_def Let_def split: if_splits)
next
  assume c: "(65 \<le> c \<and> c \<le> 90) \<or> (97 \<le> c \<and> c \<le> 122)"
  then have "65 \<le> canonicalize True c \<and> canonicalize True c < 91 \<and>
     canonicalize True (canonicalize True c) = canonicalize True c"
    by (auto simp: canonicalize_def toUpperCase_def Let_def)
  then show "\<exists>a. 65 \<le> a \<and> a < 91 \<and> canonicalize True a = canonicalize True c"
    by blast
qed

lemma canon_accent:
  "canonicalize True 193 = canonicalize True c \<longleftrightarrow> c = 193 \<or> c = 225"
  "canonicalize True 201 = canonicalize True c \<longleftrightarrow> c = 201 \<or> c = 233"
  "canonicalize True 205 = canonicalize True c \<longleftrightarrow> c = 205 \<or> c = 237"
  "canonicalize True 211 = canonicalize True c \<longleftrightarrow> c = 211 \<or> c = 243"
  "canonicalize True 218 = canonicalize True c \<longleftrightarrow> c = 218 \<or> c = 250"
  "canonicalize True 209 = canonicalize True c \<longleftrightarrow> c = 209 \<or> c = 241"
  by (auto simp: canonicalize_def toUpperCase_def Let_def split: if_splits)

lemma citem_Range:
  "citem_matches ic (Range lo hi) c \<longleftrightarrow>
     (\<exists>a. lo \<le> a \<and> a < Suc hi \<and> canonicalize ic a = canonicalize ic c)"
  by (auto simp: list_ex_iff simp del: upt_Suc)

lemma letters_iff: "atom_matches True letters c \<longleftrightarrow> isLetra c"
proof -
  have "atom_matches True letters c \<longleftrightarrow>
      (\<exists>a. 65 \<le> a \<and> a < 91 \<and> canonicalize True a = canonicalize True c) \<or>
      canonicalize True 193 = canonicalize True c \<or>
      canonicalize True 201 = canonicalize True c \<or>
      canonicalize True 205 = canonicalize True c \<or>
      canonicalize True 211 = canonicalize True c \<or>
      canonicalize True 218 = canonicalize True c \<or>
      canonicalize True 209 = canonicalize True c"
    by (simp add: letters_def ch_def citem_Range del: citem_matches.simps(2))
  then show ?thesis
    unfolding canon_upper_AZ canon_accent isLetra_def by blast
qed

lemma spaces_iff [simp]: "atom_matches ic spaces c \<longleftrightarrow> isWhiteSpace c"
  by (simp add: spaces_def)

lemma digits_iff [simp]: "atom_matches ic digits c \<longleftrightarrow> isDigit c"
  by (simp add: digits_def)

lemma anychar_iff [simp]: "atom_matches ic anychar c"
  by (simp add: anychar_def)

lemma letra_not_space: "isLetra c \<Longrightarrow> \<not> isWhiteSpace c"
  by (auto simp: isLetra_def isWhiteSpace_def)

lemma digit_not_space: "isDigit c \<Longrightarrow> \<not> isWhiteSpace c"
  by (auto simp: isDigit_def isWhiteSpace_def)

lemma advance_advance [simp]: "advance k (advance j s) = advance (j + k) s"
  by (simp add: advance_def add.assoc add.commute)

lemma advance_0 [simp]: "advance 0 s = s"
  by (simp add: advance_def)

lemma rest_advance [simp]: "rest (advance k s) = drop k (rest s)"
  and pos_advance [simp]: "pos (advance k s) = pos s + k"
  and caps_advance [simp]: "caps (advance k s) = caps s"
  by (simp_all add: advance_def)


section \<open>Quantifiers and the month-and-year pattern\<close>

lemma Rep_wordE:
  assumes "s' \<in> set (matcher ic (Rep a lo hi g) s)"
  obtains w where "rest s = w @ rest s'" "s' = advance (length w) s" "lo \<le> length w"
    "\<forall>c \<in> set w. atom_matches ic a c" "\<forall>h. hi = Some h \<longrightarrow> length w \<le> h"
proof -
  from assms obtain k where k: "lo \<le> k" "k \<le> run ic a hi (rest s)" and s': "s' = advance k s"
    unfolding in_matcher_Rep by blast
  from k(2) have len: "k \<le> length (rest s)"
    and all: "\<forall>c \<in> set (take k (rest s)). atom_matches ic a c"
    and hi: "case hi of None \<Rightarrow> True | Some h \<Rightarrow> k \<le> h"
    by (simp_all add: le_run)
  let ?w = "take k (rest s)"
  from len have lw: "length ?w = k" by simp
  show thesis
  proof (rule that [of ?w])
    show "rest s = ?w @ rest s'" by (simp add: s')
    show "s' = advance (length ?w) s" using lw s' by simp
    show "lo \<le> length ?w" using lw k(1) by simp
    show "\<forall>c \<in> set ?w. atom_matches ic a c" by (rule all)
    show "\<forall>h. hi = Some h \<longrightarrow> length ?w \<le> h"
      using hi lw by (simp split: option.splits)
  qed
qed

lemma Rep_wordI:
  assumes "rest s = w @ t" "lo \<le> length w" "\<forall>c \<in> set w. atom_matches ic a c"
    and "\<And>h. hi = Some h \<Longrightarrow> length w \<le> h"
  shows "advance (length w) s \<in> set (matcher ic (Rep a lo hi g) s)"
proof -
  from assms(1) have "take (length w) (rest s) = w" "length w \<le> length (rest s)"
    by simp_all
  with assms(3,4) have "length w \<le> run ic a hi (rest s)"
    by (simp add: le_run split: option.splits)
  with assms(2) show ?thesis
    unfolding in_matcher_Rep by blast
qed

lemma mesBody_E:
  assumes "s' \<in> set (matcher True mesBody s)"
  obtains g where "is_mes g" "rest s = g @ rest s'" "s' = advance (length g) s"
proof -
  from assms obtain y z where y: "y \<in> set (matcher True (Rep letters 1 None True) s)"
    and z: "z \<in> set (matcher True (Rep spaces 1 None True) y)"
    and s': "s' \<in> set (matcher True (Rep digits 4 (Some 4) True) z)"
    unfolding mesBody_def cat.simps in_matcher_Seq by blast
  from y obtain L where L: "rest s = L @ rest y" "y = advance (length L) s" "1 \<le> length L"
      "\<forall>c \<in> set L. atom_matches True letters c"
    by (rule Rep_wordE) blast
  from z obtain S where S: "rest y = S @ rest z" "z = advance (length S) y" "1 \<le> length S"
      "\<forall>c \<in> set S. atom_matches True spaces c"
    by (rule Rep_wordE) blast
  from s' obtain D where D: "rest z = D @ rest s'" "s' = advance (length D) z" "4 \<le> length D"
      "\<forall>c \<in> set D. atom_matches True digits c" "length D \<le> 4"
    by (rule Rep_wordE) blast
  from D(3) D(5) have lenD: "length D = 4" by simp
  have "L \<noteq> [] \<and> (\<forall>c \<in> set L. isLetra c) \<and> S \<noteq> [] \<and> (\<forall>c \<in> set S. isWhiteSpace c) \<and>
        length D = 4 \<and> (\<forall>c \<in> set D. isDigit c)"
    using L(3,4) S(3,4) D(4) lenD by (auto simp: letters_iff)
  then have "is_mes (L @ S @ D)"
    unfolding is_mes_def by blast
  moreover have "rest s = (L @ S @ D) @ rest s'"
    by (simp add: L(1) S(1) D(1))
  moreover have "s' = advance (length (L @ S @ D)) s"
    by (simp add: L(2) S(2) D(2) add.assoc)
  ultimately show thesis by (rule that)
qed

lemma mesBody_I:
  assumes "is_mes g" and "rest s = g @ t"
  shows "advance (length g) s \<in> set (matcher True mesBody s)"
proof -
  from assms(1) obtain L S D where g: "g = L @ S @ D"
    and L: "L \<noteq> []" "\<forall>c \<in> set L. isLetra c"
    and S: "S \<noteq> []" "\<forall>c \<in> set S. isWhiteSpace c"
    and D: "length D = 4" "\<forall>c \<in> set D. isDigit c"
    unfolding is_mes_def by blast
  let ?y = "advance (length L) s"
  let ?z = "advance (length S) ?y"
  have y: "?y \<in> set (matcher True (Rep letters 1 None True) s)"
  proof (rule Rep_wordI)
    show "rest s = L @ (S @ D @ t)" by (simp add: assms(2) g)
    show "1 \<le> length L" using L(1) by (cases L) simp_all
    show "\<forall>c \<in> set L. atom_matches True letters c" using L(2) by (simp add: letters_iff)
  qed simp
  have z: "?z \<in> set (matcher True (Rep spaces 1 None True) ?y)"
  proof (rule Rep_wordI)
    show "rest ?y = S @ (D @ t)" by (simp add: assms(2) g)
    show "1 \<le> length S" using S(1) by (cases S) simp_all
    show "\<forall>c \<in> set S. atom_matches True spaces c" using S(2) by simp
  qed simp
  have "advance (length D) ?z \<in> set (matcher True (Rep digits 4 (Some 4) True) ?z)"
  proof (rule Rep_wordI)
    show "rest ?z = D @ t" by (simp add: assms(2) g)
    show "4 \<le> length D" using D(1) by simp
    show "\<forall>c \<in> set D. atom_matches True digits c" using D(2) by simp
    show "length D \<le> h" if "Some 4 = Some h" for h using that D(1) by simp
  qed
  moreover have "advance (length D) ?z = advance (length g) s"
    by (simp add: g add.assoc)
  ultimately have "advance (length g) s \<in> set (matcher True (Rep digits 4 (Some 4) True) ?z)"
    by simp
  with y z show ?thesis
    unfolding mesBody_def cat.simps in_matcher_Seq by blast
qed


section \<open>What "V\'alido Hasta" captures\<close>

lemma dropWhile_id: "xs \<noteq> [] \<Longrightarrow> \<not> P (hd xs) \<Longrightarrow> dropWhile P xs = xs"
  by (cases xs) simp_all

lemma is_mes_trim:
  assumes "is_mes g"
  shows "trim g = g" and "g \<noteq> []"
proof -
  from assms obtain L S D where g: "g = L @ S @ D"
    and L: "L \<noteq> []" "\<forall>c \<in> set L. isLetra c"
    and D: "length D = 4" "\<forall>c \<in> set D. isDigit c"
    unfolding is_mes_def by blast
  from L show "g \<noteq> []" by (simp add: g)
  from L have "hd g = hd L" "hd L \<in> set L" by (simp_all add: g)
  with L(2) have "\<not> isWhiteSpace (hd g)" by (simp add: letra_not_space)
  with \<open>g \<noteq> []\<close> have front: "dropWhile isWhiteSpace g = g" by (rule dropWhile_id)
  from D(1) have "D \<noteq> []" by auto
  then have "hd (rev g) = last D" "last D \<in> set D" by (simp_all add: g hd_rev)
  with D(2) have "\<not> isWhiteSpace (hd (rev g))" by (simp add: digit_not_space)
  with \<open>g \<noteq> []\<close> have "dropWhile isWhiteSpace (rev g) = rev g" by (intro dropWhile_id) simp_all
  with front show "trim g = g" by (simp add: trim_def)
qed

lemma trim_Nil_iff: "trim v = [] \<longleftrightarrow> (\<forall>c \<in> set v. isWhiteSpace c)"
proof -
  have 1: "trim v = [] \<longleftrightarrow> (\<forall>c \<in> set (dropWhile isWhiteSpace v). isWhiteSpace c)"
    by (simp add: trim_def dropWhile_eq_Nil_conv)
  have 2: "(\<forall>c \<in> set (dropWhile isWhiteSpace v). isWhiteSpace c) \<longleftrightarrow>
           dropWhile isWhiteSpace v = []"
  proof (cases "dropWhile isWhiteSpace v")
    case Nil
    show ?thesis unfolding Nil by simp
  next
    case (Cons x xs)
    then have "\<not> isWhiteSpace x"
      using hd_dropWhile [of isWhiteSpace v] by simp
    with Cons show ?thesis by simp
  qed
  show ?thesis unfolding 1 2 by (simp add: dropWhile_eq_Nil_conv)
qed

lemma in_set_nonempty: "x \<in> set xs \<Longrightarrow> xs \<noteq> []"
  by auto

lemma is_mes_not_blank: "is_mes v \<Longrightarrow> trim v \<noteq> []"
  using is_mes_trim [of v] by simp

lemma js_test_optional_iff: "js_test optionalPattern v \<longleftrightarrow> is_mes v"
proof
  assume "js_test optionalPattern v"
  then obtain s' where "exec_from True (Seq Bol (Seq mesBody Eol)) 0 v = Some s'"
    by (auto simp: optionalPattern_def)
  from exec_from_Some [OF this] obtain k where k: "k \<le> length v"
    and s': "s' \<in> set (matcher True (Seq Bol (Seq mesBody Eol))
                \<lparr>pos = 0 + k, rest = drop k v, caps = (\<lambda>_. None)\<rparr>)"
    by blast
  let ?s0 = "\<lparr>pos = 0 + k, rest = drop k v, caps = (\<lambda>_. None)\<rparr>"
  from s' obtain y z where y: "y \<in> set (matcher True Bol ?s0)"
    and z: "z \<in> set (matcher True mesBody y)" and e: "s' \<in> set (matcher True Eol z)"
    unfolding in_matcher_Seq by blast
  from y have k0: "k = 0" and y0: "y = ?s0" by (auto split: if_splits)
  from e have rz: "rest z = []" by (auto split: if_splits)
  from z obtain g where "is_mes g" "rest y = g @ rest z" by (rule mesBody_E)
  with rz y0 k0 show "is_mes v" by simp
next
  assume m: "is_mes v"
  let ?s0 = "\<lparr>pos = 0, rest = v, caps = (\<lambda>_. None)\<rparr>"
  have "rest ?s0 = v @ []" by simp
  with m have z: "advance (length v) ?s0 \<in> set (matcher True mesBody ?s0)"
    by (rule mesBody_I)
  have "advance (length v) ?s0 \<in> set (matcher True Eol (advance (length v) ?s0))"
    by simp
  with z have "advance (length v) ?s0 \<in> set (matcher True (Seq Bol (Seq mesBody Eol)) ?s0)"
    unfolding in_matcher_Seq by (intro bexI [of _ ?s0] bexI [of _ "advance (length v) ?s0"]) simp_all
  then have "matcher True (Seq Bol (Seq mesBody Eol)) ?s0 \<noteq> []" by (rule in_set_nonempty)
  then have "exec_from True (Seq Bol (Seq mesBody Eol)) 0 v \<noteq> None"
    unfolding exec_from_None by (intro notI) (auto dest: spec [of _ 0])
  then show "js_test optionalPattern v" by (simp add: optionalPattern_def)
qed

lemma blank_fails_optional:
  assumes "v \<noteq> []" and "trim v = []"
  shows "\<not> js_test optionalPattern v"
  using assms is_mes_not_blank [of v] by (auto simp: js_test_optional_iff)

lemma js_match_SomeE:
  assumes "js_match (RegExp r ic) cs = Some c"
  obtains k s' where "k \<le> length cs"
    "s' \<in> set (matcher ic r \<lparr>pos = k, rest = drop k cs, caps = (\<lambda>_. None)\<rparr>)" "c = caps s'"
proof -
  from assms obtain s' where e: "exec_from ic r 0 cs = Some s'" and c: "c = caps s'"
    by auto
  from exec_from_Some [OF e] c that show thesis by auto
qed

lemma valido_group2:
  assumes "js_match validoPattern sec = Some v"
  shows "\<exists>g. v 2 = Some g \<and> is_mes g"
proof -
  from assms obtain k s' where
    s': "s' \<in> set (matcher True
           (cat [Lit (str ''V'' @ [0xC1] @ str ''LIDO HASTA''),
                  Opt (cat [Rep spaces 0 None True, Lit litFechaRevision]),
                  Rep spaces 0 None True,
                  Opt (cat [Group 1 fechaBody, Rep spaces 1 None True]),
                  Group 2 mesBody])
           \<lparr>pos = k, rest = drop k sec, caps = (\<lambda>_. None)\<rparr>)" and v: "v = caps s'"
    unfolding validoPattern_def by (rule js_match_SomeE)
  from s' obtain y where "s' \<in> set (matcher True (Group 2 mesBody) y)"
    unfolding cat.simps in_matcher_Seq by blast
  then obtain z where z: "z \<in> set (matcher True mesBody y)"
    and s'': "s' = z\<lparr>caps := (caps z)(2 \<mapsto> take (pos z - pos y) (rest y))\<rparr>"
    unfolding in_matcher_Group by blast
  from z obtain g where g: "is_mes g" "rest y = g @ rest z" "z = advance (length g) y"
    by (rule mesBody_E)
  from g(3) have "pos z - pos y = length g" by simp
  moreover from g(2) have "take (length g) (rest y) = g" by simp
  ultimately have "take (pos z - pos y) (rest y) = g" by simp
  with s'' g(1) v show ?thesis by simp
qed

lemma validoValue_mes:
  assumes "js_match validoPattern sec = Some v"
  shows "is_mes (validoValue v)"
proof -
  from valido_group2 [OF assms] obtain g where g: "v 2 = Some g" "is_mes g" by blast
  from is_mes_trim [OF g(2)] g(1) have "validoValue v = g"
    by (cases g) (simp_all add: validoValue_def js_or_def)
  with g(2) show ?thesis by simp
qed


section \<open>The capture groups of the extractor are defined\<close>

lemma Group_caps:
  "s' \<in> set (matcher ic (Group n r) s) \<Longrightarrow> caps s' n \<noteq> None"
  by (auto simp: in_matcher_Group)

lemma group1_last:
  assumes "js_match (RegExp (Seq a (Seq b (Group 1 r))) ic) cs = Some c"
  shows "c 1 \<noteq> None"
proof -
  from assms obtain k s' where
    "s' \<in> set (matcher ic (Seq a (Seq b (Group 1 r))) \<lparr>pos = k, rest = drop k cs, caps = (\<lambda>_. None)\<rparr>)"
    and c: "c = caps s'"
    by (rule js_match_SomeE)
  then obtain y where "s' \<in> set (matcher ic (Group 1 r) y)"
    unfolding in_matcher_Seq by blast
  from Group_caps [OF this] c show ?thesis by simp
qed

lemma group1_only:
  assumes "js_match (RegExp (Group 1 r) ic) cs = Some c"
  shows "c 1 \<noteq> None"
proof -
  from assms obtain k s' where
    "s' \<in> set (matcher ic (Group 1 r) \<lparr>pos = k, rest = drop k cs, caps = (\<lambda>_. None)\<rparr>)"
    and c: "c = caps s'"
    by (rule js_match_SomeE)
  from Group_caps [OF this(1)] c show ?thesis by simp
qed

lemma group1_section:
  assumes "js_match (RegExp (Seq t (Seq (Group 1 r) (Look l))) ic) cs = Some c"
  shows "c 1 \<noteq> None"
proof -
  from assms obtain k s' where
    "s' \<in> set (matcher ic (Seq t (Seq (Group 1 r) (Look l)))
        \<lparr>pos = k, rest = drop k cs, caps = (\<lambda>_. None)\<rparr>)"
    and c: "c = caps s'"
    by (rule js_match_SomeE)
  then obtain y z where z: "z \<in> set (matcher ic (Group 1 r) y)"
    and s': "s' \<in> set (matcher ic (Look l) z)"
    unfolding in_matcher_Seq by blast
  from caps_stay_defined [OF s' Group_caps [OF z]] c show ?thesis by simp
qed

lemma group1_trim_campo:
  assumes "\<And>c. js_match p pdfTexto = Some c \<Longrightarrow> c 1 \<noteq> None"
  shows "group1_trim (js_match p pdfTexto) = Inr (campo p pdfTexto)"
proof (cases "js_match p pdfTexto")
  case None
  then show ?thesis by (simp add: campo_def group1_trim_def)
next
  case (Some c)
  with assms [OF Some] show ?thesis by (auto simp: campo_def group1_trim_def)
qed

lemma group1_trim_fixed:
  "group1_trim (js_match fechaPattern pdfTexto) = Inr (campo fechaPattern pdfTexto)"
  "group1_trim (js_match plantaPattern pdfTexto) = Inr (campo plantaPattern pdfTexto)"
  "group1_trim (js_match placaPattern pdfTexto) = Inr (campo placaPattern pdfTexto)"
  "group1_trim (js_match folioPattern pdfTexto) = Inr (campo folioPattern pdfTexto)"
proof -
  show "group1_trim (js_match fechaPattern pdfTexto) = Inr (campo fechaPattern pdfTexto)"
    by (rule group1_trim_campo) (unfold fechaPattern_def cat.simps, rule group1_last)
  show "group1_trim (js_match plantaPattern pdfTexto) = Inr (campo plantaPattern pdfTexto)"
    by (rule group1_trim_campo) (unfold plantaPattern_def cat.simps, rule group1_last)
  show "group1_trim (js_match placaPattern pdfTexto) = Inr (campo placaPattern pdfTexto)"
    by (rule group1_trim_campo) (unfold placaPattern_def cat.simps, rule group1_last)
  show "group1_trim (js_match folioPattern pdfTexto) = Inr (campo folioPattern pdfTexto)"
    by (rule group1_trim_campo) (unfold folioPattern_def cat.simps, rule group1_only)
qed

lemma section_group1:
  "js_match revisionSectionPattern pdfTexto = Some c \<Longrightarrow> c 1 \<noteq> None"
  "js_match contaminantesSectionPattern pdfTexto = Some c \<Longrightarrow> c 1 \<noteq> None"
  unfolding revisionSectionPattern_def contaminantesSectionPattern_def cat.simps
  by (rule group1_section, assumption)+

lemma seccion_None_iff:
  "seccion revisionSectionPattern pdfTexto = None \<longleftrightarrow>
     js_match revisionSectionPattern pdfTexto = None"
  "seccion contaminantesSectionPattern pdfTexto = None \<longleftrightarrow>
     js_match contaminantesSectionPattern pdfTexto = None"
  using section_group1 [of pdfTexto]
  by (auto simp: seccion_def split: option.splits)

lemma validoHasta_section:
  "validoHasta (js_match revisionSectionPattern pdfTexto) =
     Inr (validoDe revisionSectionPattern pdfTexto)"
  "validoHasta (js_match contaminantesSectionPattern pdfTexto) =
     Inr (validoDe contaminantesSectionPattern pdfTexto)"
  using section_group1 [of pdfTexto]
  by (auto simp: validoHasta_def validoDe_def validoEn_def seccion_def split: option.splits)

lemma andThen_simps [simp]:
  "andThen (Inl e) f = Inl e" "andThen (Inr v) f = f v"
  by (simp_all add: andThen_def)

lemma extraerDatosCRT_cases:
  "extraerDatosCRT pdfTexto =
     (if js_match revisionSectionPattern pdfTexto = None \<and>
         js_match contaminantesSectionPattern pdfTexto = None
      then Inl SinCertificado
      else Inr (Map.empty(kFecha \<mapsto> campo fechaPattern pdfTexto,
             kPlanta \<mapsto> campo plantaPattern pdfTexto,
             kPlaca \<mapsto> campo placaPattern pdfTexto,
             kValidoRT \<mapsto> validoDe revisionSectionPattern pdfTexto,
             kValidoCont \<mapsto> validoDe contaminantesSectionPattern pdfTexto,
             kFolio \<mapsto> campo folioPattern pdfTexto)))"
  by (simp add: extraerDatosCRT_def group1_trim_fixed validoHasta_section Let_def
      Option.is_none_def)


section \<open>\<open>extraerDatosCRT\<close> throws only without certificates\<close>

lemma section_matcher_Nil_iff:
  "matcher ic (Seq t (Seq (Group 1 (Rep anychar 0 None False)) (Look (Alt l Eol)))) s = [] \<longleftrightarrow>
   matcher ic t s = []"
proof
  assume "matcher ic t s = []"
  then show "matcher ic (Seq t (Seq (Group 1 (Rep anychar 0 None False)) (Look (Alt l Eol)))) s = []"
    by simp
next
  assume a: "matcher ic (Seq t (Seq (Group 1 (Rep anychar 0 None False)) (Look (Alt l Eol)))) s = []"
  show "matcher ic t s = []"
  proof (rule ccontr)
    assume "matcher ic t s \<noteq> []"
    then obtain y where y: "y \<in> set (matcher ic t s)"
      by (cases "matcher ic t s") auto
    let ?z = "advance (length (rest y)) y"
    have "?z \<in> set (matcher ic (Rep anychar 0 None False) y)"
      by (rule Rep_wordI [where t = "[]"]) simp_all
    then have "\<exists>z' \<in> set (matcher ic (Group 1 (Rep anychar 0 None False)) y). rest z' = []"
      unfolding in_matcher_Group by force
    then obtain z' where z': "z' \<in> set (matcher ic (Group 1 (Rep anychar 0 None False)) y)"
      and rz: "rest z' = []"
      by blast
    from rz have "matcher ic (Alt l Eol) z' = matcher ic l z' @ [z']" by simp
    then obtain e es where "matcher ic (Alt l Eol) z' = e # es"
      by (cases "matcher ic (Alt l Eol) z'") auto
    then have "z'\<lparr>caps := caps e\<rparr> \<in> set (matcher ic (Look (Alt l Eol)) z')"
      by simp
    with y z' have "z'\<lparr>caps := caps e\<rparr> \<in>
        set (matcher ic (Seq t (Seq (Group 1 (Rep anychar 0 None False)) (Look (Alt l Eol)))) s)"
      unfolding in_matcher_Seq by blast
    with a show False by simp
  qed
qed

lemma section_iff_title:
  "js_match (RegExp (Seq t (Seq (Group 1 (Rep anychar 0 None False)) (Look (Alt l Eol)))) ic) cs = None
     \<longleftrightarrow> \<not> js_test (RegExp t ic) cs"
proof -
  have "exec_from ic (Seq t (Seq (Group 1 (Rep anychar 0 None False)) (Look (Alt l Eol)))) 0 cs = None
      \<longleftrightarrow> exec_from ic t 0 cs = None"
    unfolding exec_from_None section_matcher_Nil_iff ..
  then show ?thesis
    by (simp del: matcher.simps One_nat_def)
qed

lemma seccion_presente:
  "js_match revisionSectionPattern pdfTexto = None \<longleftrightarrow>
     \<not> js_test (RegExp tituloRevision True) pdfTexto"
  "js_match contaminantesSectionPattern pdfTexto = None \<longleftrightarrow>
     \<not> js_test (RegExp tituloContaminantes True) pdfTexto"
  unfolding revisionSectionPattern_def contaminantesSectionPattern_def cat.simps
  by (rule section_iff_title)+

lemma campo_None:
  "js_match p pdfTexto = None \<Longrightarrow> campo p pdfTexto = []"
  by (simp add: campo_def group1_trim_def)

text \<open>
  C4. If the title of one of the two certificates occurs in the text, \<open>extraerDatosCRT\<close>
  returns, and each fixed field whose pattern does not match is the empty string. When
  it throws, the error is \<open>SinCertificado\<close> and neither title occurs in the text; reading
  a capture group never raises a TypeError.
\<close>

theorem extraer_throws_only_without_sections:
  "(js_test (RegExp tituloRevision True) pdfTexto \<or>
    js_test (RegExp tituloContaminantes True) pdfTexto \<longrightarrow>
      (\<exists>d. extraerDatosCRT pdfTexto = Inr d \<and>
         (js_match fechaPattern pdfTexto = None \<longrightarrow> d kFecha = Some []) \<and>
         (js_match plantaPattern pdfTexto = None \<longrightarrow> d kPlanta = Some []) \<and>
         (js_match placaPattern pdfTexto = None \<longrightarrow> d kPlaca = Some []) \<and>
         (js_match folioPattern pdfTexto = None \<longrightarrow> d kFolio = Some []))) \<and>
   (\<forall>e. extraerDatosCRT pdfTexto = Inl e \<longrightarrow>
      e = SinCertificado \<and>
      \<not> js_test (RegExp tituloRevision True) pdfTexto \<and>
      \<not> js_test (RegExp tituloContaminantes True) pdfTexto \<and>
      js_match revisionSectionPattern pdfTexto = None \<and>
      js_match contaminantesSectionPattern pdfTexto = None)"
proof -
  let ?d = "Map.empty(kFecha \<mapsto> campo fechaPattern pdfTexto,
             kPlanta \<mapsto> campo plantaPattern pdfTexto,
             kPlaca \<mapsto> campo placaPattern pdfTexto,
             kValidoRT \<mapsto> validoDe revisionSectionPattern pdfTexto,
             kValidoCont \<mapsto> validoDe contaminantesSectionPattern pdfTexto,
             kFolio \<mapsto> campo folioPattern pdfTexto)"
  have fields: "(js_match fechaPattern pdfTexto = None \<longrightarrow> ?d kFecha = Some []) \<and>
         (js_match plantaPattern pdfTexto = None \<longrightarrow> ?d kPlanta = Some []) \<and>
         (js_match placaPattern pdfTexto = None \<longrightarrow> ?d kPlaca = Some []) \<and>
         (js_match folioPattern pdfTexto = None \<longrightarrow> ?d kFolio = Some [])"
    by (simp add: keys_neq campo_None)
  have present: "extraerDatosCRT pdfTexto = Inr ?d"
    if "js_test (RegExp tituloRevision True) pdfTexto \<or>
        js_test (RegExp tituloContaminantes True) pdfTexto"
    using that unfolding extraerDatosCRT_cases seccion_presente by auto
  have absent: "e = SinCertificado \<and>
      \<not> js_test (RegExp tituloRevision True) pdfTexto \<and>
      \<not> js_test (RegExp tituloContaminantes True) pdfTexto \<and>
      js_match revisionSectionPattern pdfTexto = None \<and>
      js_match contaminantesSectionPattern pdfTexto = None"
    if "extraerDatosCRT pdfTexto = Inl e" for e
    using that unfolding extraerDatosCRT_cases seccion_presente [symmetric]
    by (auto split: if_splits)
  show ?thesis
  proof (intro conjI impI allI)
    assume "js_test (RegExp tituloRevision True) pdfTexto \<or>
        js_test (RegExp tituloContaminantes True) pdfTexto"
    from present [OF this] fields
    show "\<exists>d. extraerDatosCRT pdfTexto = Inr d \<and>
         (js_match fechaPattern pdfTexto = None \<longrightarrow> d kFecha = Some []) \<and>
         (js_match plantaPattern pdfTexto = None \<longrightarrow> d kPlanta = Some []) \<and>
         (js_match placaPattern pdfTexto = None \<longrightarrow> d kPlaca = Some []) \<and>
         (js_match folioPattern pdfTexto = None \<longrightarrow> d kFolio = Some [])"
      by (intro exI [of _ ?d] conjI) simp_all
  qed (use absent in simp_all)
qed

lemma ex_titulo_eval:
  "js_test (RegExp tituloRevision True) ex_text_titulo"
  "js_match fechaPattern ex_text_titulo = None"
  "js_match plantaPattern ex_text_titulo = None"
  "js_match placaPattern ex_text_titulo = None"
  "js_match folioPattern ex_text_titulo = None"
  by (simp_all add: ex_text_titulo_def pattern_defs eval_defs)

theorem extraer_throws_only_without_sections_witness:
  "js_test (RegExp tituloRevision True) ex_text_titulo \<and>
   js_match fechaPattern ex_text_titulo = None \<and>
   js_match folioPattern ex_text_titulo = None \<and>
   (\<exists>d. extraerDatosCRT ex_text_titulo = Inr d \<and> d kFecha = Some [] \<and> d kPlanta = Some [] \<and>
        d kPlaca = Some [] \<and> d kFolio = Some [])"
  using extraer_throws_only_without_sections [of ex_text_titulo] ex_titulo_eval
  by auto


section \<open>When \<open>bestEffortValidationCRT\<close> throws\<close>

lemma checkRequired_Nil:
  "checkRequired d (field, pattern) = [] \<longleftrightarrow>
     \<not> (campoVacio d field \<or> (\<exists>v. d field = Some v \<and> \<not> js_test pattern v))"
  by (auto simp: campoVacio_def split: option.splits)

lemma checkOptional_Nil:
  "checkOptional d (field, pattern) = [] \<longleftrightarrow>
     \<not> (\<not> campoVacio d field \<and> (\<exists>v. d field = Some v \<and> \<not> js_test pattern v))"
  by (auto simp: campoVacio_def split: option.splits)

lemma required_errors_Nil:
  "concat (map (checkRequired d) requiredPatterns) = [] \<longleftrightarrow> \<not> requiredBad d"
proof -
  have "checkRequired d x = [] \<longleftrightarrow>
      \<not> (campoVacio d (fst x) \<or> (\<exists>v. d (fst x) = Some v \<and> \<not> js_test (snd x) v))" for x
    by (cases x) (simp only: checkRequired_Nil fst_conv snd_conv)
  then show ?thesis
    unfolding requiredBad_def by (simp add: split_beta del: checkRequired.simps)
qed

lemma optional_errors_Nil:
  "concat (map (checkOptional d) optionalPatterns) = [] \<longleftrightarrow> \<not> optionalBad d"
proof -
  have "checkOptional d x = [] \<longleftrightarrow>
      \<not> (\<not> campoVacio d (fst x) \<and> (\<exists>v. d (fst x) = Some v \<and> \<not> js_test (snd x) v))" for x
    by (cases x) (simp only: checkOptional_Nil fst_conv snd_conv)
  then show ?thesis
    unfolding optionalBad_def by (simp add: split_beta del: checkOptional.simps)
qed

lemma hasField_optional:
  assumes "\<not> optionalBad d" and "f = kValidoRT \<or> f = kValidoCont"
  shows "hasField d f \<longleftrightarrow> \<not> campoVacio d f"
proof (cases "d f")
  case None
  then show ?thesis by (simp add: hasField_def campoVacio_def)
next
  case (Some v)
  show ?thesis
  proof (cases "v = []")
    case True
    with Some show ?thesis by (simp add: hasField_def campoVacio_def)
  next
    case False
    from assms(2) have "(f, optionalPattern) \<in> set optionalPatterns"
      by (auto simp: optionalPatterns_def)
    with assms(1) Some False have "js_test optionalPattern v"
      unfolding optionalBad_def campoVacio_def by fastforce
    then have "trim v \<noteq> []"
      by (simp add: js_test_optional_iff is_mes_not_blank)
    with Some False show ?thesis by (simp add: hasField_def campoVacio_def)
  qed
qed

lemma validationErrors_Nil:
  "validationErrors d = [] \<longleftrightarrow>
     \<not> requiredBad d \<and> \<not> optionalBad d \<and> \<not> (campoVacio d kValidoRT \<and> campoVacio d kValidoCont)"
proof -
  have 1: "validationErrors d = [] \<longleftrightarrow>
     \<not> requiredBad d \<and> \<not> optionalBad d \<and> \<not> (\<not> hasField d kValidoRT \<and> \<not> hasField d kValidoCont)"
    unfolding validationErrors_def append_is_Nil_conv required_errors_Nil optional_errors_Nil
    by simp
  show ?thesis
  proof (cases "optionalBad d")
    case True
    then show ?thesis unfolding 1 by simp
  next
    case False
    from hasField_optional [OF False, of kValidoRT] hasField_optional [OF False, of kValidoCont]
    show ?thesis unfolding 1 by simp
  qed
qed

text \<open>
  C2. \<open>bestEffortValidationCRT\<close> throws if and only if a required field is absent, empty or
  fails its pattern, or a non-empty optional field fails its pattern, or both optional
  fields are empty; what it throws carries the file name and the list of problems. On
  success the object is as it was, and an optional field that is empty while the other
  one is not is no error.
\<close>

theorem validation_throws_iff:
  "((\<exists>e. bestEffortValidationCRT d fileName = Inl e) \<longleftrightarrow>
      requiredBad d \<or> optionalBad d \<or> (campoVacio d kValidoRT \<and> campoVacio d kValidoCont)) \<and>
   (\<forall>e. bestEffortValidationCRT d fileName = Inl e \<longrightarrow>
      e = ProblemasEnDatos fileName (validationErrors d)) \<and>
   (\<forall>d'. bestEffortValidationCRT d fileName = Inr d' \<longrightarrow> d' = d) \<and>
   (\<not> requiredBad d \<and> \<not> optionalBad d \<and>
    (\<not> campoVacio d kValidoRT \<or> \<not> campoVacio d kValidoCont) \<longrightarrow>
      bestEffortValidationCRT d fileName = Inr d)"
  using validationErrors_Nil [of d]
  by (auto simp: bestEffortValidationCRT_def Let_def)


section \<open>Processing a document\<close>

lemma ex_campos:
  "campo fechaPattern (ex_fixed @ r) = str ''10 OCTUBRE 2023''"
  "campo plantaPattern (ex_fixed @ r) = str ''AB-01''"
  "campo placaPattern (ex_fixed @ r) = str ''ABCD12''"
  "campo folioPattern (ex_fixed @ r) = litFolio @ str ''12345''"
  by (simp_all add: ex_fixed_def pattern_defs eval_defs)

lemma datosDe_simps [simp]:
  "datosDe pdfTexto kFecha = Some (campo fechaPattern pdfTexto)"
  "datosDe pdfTexto kPlanta = Some (campo plantaPattern pdfTexto)"
  "datosDe pdfTexto kPlaca = Some (campo placaPattern pdfTexto)"
  "datosDe pdfTexto kValidoRT = Some (validoDe revisionSectionPattern pdfTexto)"
  "datosDe pdfTexto kValidoCont = Some (validoDe contaminantesSectionPattern pdfTexto)"
  "datosDe pdfTexto kFolio = Some (campo folioPattern pdfTexto)"
  "datosDe pdfTexto kNombrePDF = None"
  by (simp_all add: datosDe_def keys_neq)

lemma camposFijos_simps [simp]:
  "camposFijos pdfTexto kFecha = Some (campo fechaPattern pdfTexto)"
  "camposFijos pdfTexto kPlanta = Some (campo plantaPattern pdfTexto)"
  "camposFijos pdfTexto kPlaca = Some (campo placaPattern pdfTexto)"
  "camposFijos pdfTexto kFolio = Some (campo folioPattern pdfTexto)"
  by (simp_all add: camposFijos_def keys_neq)

lemma requiredBad_fixed:
  "requiredBad (datosDe pdfTexto) \<longleftrightarrow> \<not> fixedFieldsValid pdfTexto"
proof -
  have "requiredBad (datosDe pdfTexto) = requiredBad (camposFijos pdfTexto)"
    by (simp add: requiredBad_def requiredPatterns_def campoVacio_def del: js_test.simps)
  then show ?thesis
    unfolding fixedFieldsValid_def required_errors_Nil by simp
qed

lemma validoDe_None: "validoEn p pdfTexto = None \<Longrightarrow> validoDe p pdfTexto = []"
  by (simp add: validoDe_def)

lemma validoDe_Some:
  assumes "validoEn p pdfTexto = Some v"
  shows "validoDe p pdfTexto = validoValue v" and "is_mes (validoValue v)"
proof -
  from assms show "validoDe p pdfTexto = validoValue v" by (simp add: validoDe_def)
  from assms obtain sec where "js_match validoPattern sec = Some v"
    by (auto simp: validoEn_def split: option.splits)
  then show "is_mes (validoValue v)" by (rule validoValue_mes)
qed

lemma validoDe_cases:
  "(validoEn p pdfTexto = None \<and> validoDe p pdfTexto = []) \<or>
   (validoEn p pdfTexto \<noteq> None \<and> is_mes (validoDe p pdfTexto))"
  using validoDe_None [of p pdfTexto] validoDe_Some [of p pdfTexto]
  by (cases "validoEn p pdfTexto") auto

lemma optionalBad_datosDe: "\<not> optionalBad (datosDe pdfTexto)"
  using validoDe_cases [of revisionSectionPattern pdfTexto]
    validoDe_cases [of contaminantesSectionPattern pdfTexto]
  by (auto simp: optionalBad_def optionalPatterns_def campoVacio_def js_test_optional_iff
      simp del: js_test.simps)

lemma campoVacio_datosDe:
  "campoVacio (datosDe pdfTexto) kValidoRT \<longleftrightarrow> validoEn revisionSectionPattern pdfTexto = None"
  "campoVacio (datosDe pdfTexto) kValidoCont \<longleftrightarrow>
     validoEn contaminantesSectionPattern pdfTexto = None"
  using validoDe_cases [of revisionSectionPattern pdfTexto]
    validoDe_cases [of contaminantesSectionPattern pdfTexto] is_mes_trim(2)
  by (auto simp: campoVacio_def)

lemma validationErrors_datosDe:
  assumes "fixedFieldsValid pdfTexto"
  shows "validationErrors (datosDe pdfTexto) =
     (if validoEn revisionSectionPattern pdfTexto = None \<and>
         validoEn contaminantesSectionPattern pdfTexto = None
      then [FaltaValidoHasta] else [])"
proof -
  from assms have req: "concat (map (checkRequired (datosDe pdfTexto)) requiredPatterns) = []"
    unfolding required_errors_Nil requiredBad_fixed by simp
  have opt: "concat (map (checkOptional (datosDe pdfTexto)) optionalPatterns) = []"
    unfolding optional_errors_Nil by (rule optionalBad_datosDe)
  have has: "hasField (datosDe pdfTexto) kValidoRT \<longleftrightarrow>
               validoEn revisionSectionPattern pdfTexto \<noteq> None"
    "hasField (datosDe pdfTexto) kValidoCont \<longleftrightarrow>
               validoEn contaminantesSectionPattern pdfTexto \<noteq> None"
    using hasField_optional [OF optionalBad_datosDe, of _ pdfTexto]
    by (simp_all add: campoVacio_datosDe)
  show ?thesis
    unfolding validationErrors_def req opt has by simp
qed

lemma procesar_cases:
  assumes "fixedFieldsValid pdfTexto"
  shows "procesarPDFCRT \<lparr>file_name = n, pdf_text = Inr pdfTexto\<rparr> =
     (if js_match revisionSectionPattern pdfTexto = None \<and>
         js_match contaminantesSectionPattern pdfTexto = None
      then Inl SinCertificado
      else if validoEn revisionSectionPattern pdfTexto = None \<and>
              validoEn contaminantesSectionPattern pdfTexto = None
      then Inl (ProblemasEnDatos n [FaltaValidoHasta])
      else Inr [(kNombrePDF, Some n),
                (kFecha, Some (campo fechaPattern pdfTexto)),
                (kPlanta, Some (campo plantaPattern pdfTexto)),
                (kPlaca, Some (campo placaPattern pdfTexto)),
                (kValidoRT, Some (validoDe revisionSectionPattern pdfTexto)),
                (kValidoCont, Some (validoDe contaminantesSectionPattern pdfTexto)),
                (kFolio, Some (campo folioPattern pdfTexto))])"
proof -
  have ex: "extraerDatosCRT pdfTexto =
     (if js_match revisionSectionPattern pdfTexto = None \<and>
         js_match contaminantesSectionPattern pdfTexto = None
      then Inl SinCertificado else Inr (datosDe pdfTexto))"
    unfolding extraerDatosCRT_cases datosDe_def ..
  show ?thesis
    by (simp add: procesarPDFCRT_def ex bestEffortValidationCRT_def
        validationErrors_datosDe [OF assms] Let_def keys_neq)
qed

lemma ex_fixed_valid: "fixedFieldsValid (ex_fixed @ r)"
  unfolding fixedFieldsValid_def
  by (simp add: requiredPatterns_def ex_campos)
     (simp add: pattern_defs eval_defs)

lemma ex_rt_bare_sections:
  "seccion revisionSectionPattern ex_text_rt_bare = Some []"
  "js_match contaminantesSectionPattern ex_text_rt_bare = None"
  by (simp_all add: ex_text_rt_bare_def ex_fixed_def pattern_defs eval_defs)

lemma ex_rt_sections:
  "seccion revisionSectionPattern ex_text_rt = Some (str '' '' @ ex_valido @ str '' OCTUBRE 2024'')"
  "js_match contaminantesSectionPattern ex_text_rt = None"
  by (simp_all add: ex_text_rt_def ex_valido_def ex_fixed_def pattern_defs eval_defs)

lemma ex_valido_match:
  "js_match validoPattern [] = None"
  "map_option validoValue (js_match validoPattern (str '' '' @ ex_valido @ str '' OCTUBRE 2024'')) =
     Some (str ''OCTUBRE 2024'')"
  by (simp_all add: ex_valido_def pattern_defs eval_defs)

text \<open>
  C1, as amended. Let the four fixed fields of a text extract and validate. If the text has
  the first certificate only and "V\'ALIDO HASTA" is found in that section, processing
  succeeds with that value in "V\'alido Hasta Revisi\'on T\'ecnica" and the empty string in
  "V\'alido Hasta Contaminantes"; the same with the two certificates exchanged; if "V\'ALIDO
  HASTA" is found in both sections, processing succeeds with both fields populated; a text
  with neither section fails with the error of the extractor (\<open>SinCertificado\<close>); and a
  text with a section but no "V\'ALIDO HASTA" in any section fails in validation, with the
  one problem that both "V\'alido Hasta" fields are missing.
\<close>

theorem crt_section_cases:
  assumes "fixedFieldsValid pdfTexto"
  shows
   "(js_match revisionSectionPattern pdfTexto \<noteq> None \<and>
     js_match contaminantesSectionPattern pdfTexto = None \<and>
     validoEn revisionSectionPattern pdfTexto = Some v \<longrightarrow>
       (\<exists>row. procesarPDFCRT \<lparr>file_name = n, pdf_text = Inr pdfTexto\<rparr> = Inr row \<and>
          map_of row kValidoRT = Some (Some (validoValue v)) \<and> validoValue v \<noteq> [] \<and>
          map_of row kValidoCont = Some (Some []))) \<and>
    (js_match revisionSectionPattern pdfTexto = None \<and>
     js_match contaminantesSectionPattern pdfTexto \<noteq> None \<and>
     validoEn contaminantesSectionPattern pdfTexto = Some w \<longrightarrow>
       (\<exists>row. procesarPDFCRT \<lparr>file_name = n, pdf_text = Inr pdfTexto\<rparr> = Inr row \<and>
          map_of row kValidoRT = Some (Some []) \<and>
          map_of row kValidoCont = Some (Some (validoValue w)) \<and> validoValue w \<noteq> [])) \<and>
    (validoEn revisionSectionPattern pdfTexto = Some v \<and>
     validoEn contaminantesSectionPattern pdfTexto = Some w \<longrightarrow>
       (\<exists>row. procesarPDFCRT \<lparr>file_name = n, pdf_text = Inr pdfTexto\<rparr> = Inr row \<and>
          map_of row kValidoRT = Some (Some (validoValue v)) \<and> validoValue v \<noteq> [] \<and>
          map_of row kValidoCont = Some (Some (validoValue w)) \<and> validoValue w \<noteq> [])) \<and>
    (js_match revisionSectionPattern pdfTexto = None \<and>
     js_match contaminantesSectionPattern pdfTexto = None \<longrightarrow>
       procesarPDFCRT \<lparr>file_name = n, pdf_text = Inr pdfTexto\<rparr> = Inl SinCertificado) \<and>
    ((js_match revisionSectionPattern pdfTexto \<noteq> None \<or>
      js_match contaminantesSectionPattern pdfTexto \<noteq> None) \<and>
     validoEn revisionSectionPattern pdfTexto = None \<and>
     validoEn contaminantesSectionPattern pdfTexto = None \<longrightarrow>
       procesarPDFCRT \<lparr>file_name = n, pdf_text = Inr pdfTexto\<rparr> =
         Inl (ProblemasEnDatos n [FaltaValidoHasta]))"
proof -
  note pc = procesar_cases [OF assms, of n]
  have absent: "validoEn p pdfTexto = None" if "js_match p pdfTexto = None" for p
    using that by (simp add: validoEn_def seccion_def)
  have present: "js_match p pdfTexto \<noteq> None" if "validoEn p pdfTexto = Some u" for p u
    using that absent [of p] by auto
  have populated: "validoDe p pdfTexto = validoValue u \<and> validoValue u \<noteq> []"
    if "validoEn p pdfTexto = Some u" for p u
    using validoDe_Some [OF that] is_mes_trim(2) by blast
  have only_rt: "\<exists>row. procesarPDFCRT \<lparr>file_name = n, pdf_text = Inr pdfTexto\<rparr> = Inr row \<and>
          map_of row kValidoRT = Some (Some (validoValue v)) \<and> validoValue v \<noteq> [] \<and>
          map_of row kValidoCont = Some (Some [])"
    if "js_match contaminantesSectionPattern pdfTexto = None"
      "validoEn revisionSectionPattern pdfTexto = Some v"
    using that present [OF that(2)] populated [OF that(2)] absent [OF that(1)]
    by (simp add: pc keys_neq validoDe_None)
  have only_cont: "\<exists>row. procesarPDFCRT \<lparr>file_name = n, pdf_text = Inr pdfTexto\<rparr> = Inr row \<and>
          map_of row kValidoRT = Some (Some []) \<and>
          map_of row kValidoCont = Some (Some (validoValue w)) \<and> validoValue w \<noteq> []"
    if "js_match revisionSectionPattern pdfTexto = None"
      "validoEn contaminantesSectionPattern pdfTexto = Some w"
    using that present [OF that(2)] populated [OF that(2)] absent [OF that(1)]
    by (simp add: pc keys_neq validoDe_None)
  have both: "\<exists>row. procesarPDFCRT \<lparr>file_name = n, pdf_text = Inr pdfTexto\<rparr> = Inr row \<and>
          map_of row kValidoRT = Some (Some (validoValue v)) \<and> validoValue v \<noteq> [] \<and>
          map_of row kValidoCont = Some (Some (validoValue w)) \<and> validoValue w \<noteq> []"
    if "validoEn revisionSectionPattern pdfTexto = Some v"
      "validoEn contaminantesSectionPattern pdfTexto = Some w"
    using that present [OF that(1)] populated [OF that(1)] populated [OF that(2)]
    by (simp add: pc keys_neq)
  have neither: "procesarPDFCRT \<lparr>file_name = n, pdf_text = Inr pdfTexto\<rparr> = Inl SinCertificado"
    if "js_match revisionSectionPattern pdfTexto = None"
      "js_match contaminantesSectionPattern pdfTexto = None"
    using that by (simp add: pc)
  have no_valido: "procesarPDFCRT \<lparr>file_name = n, pdf_text = Inr pdfTexto\<rparr> =
         Inl (ProblemasEnDatos n [FaltaValidoHasta])"
    if "js_match revisionSectionPattern pdfTexto \<noteq> None \<or>
        js_match contaminantesSectionPattern pdfTexto \<noteq> None"
      "validoEn revisionSectionPattern pdfTexto = None"
      "validoEn contaminantesSectionPattern pdfTexto = None"
    using that by (auto simp: pc)
  show ?thesis
    by (intro conjI impI; (elim conjE)?) (rule only_rt only_cont both neither no_valido; assumption)+
qed

lemma ex_rt_valido:
  "map_option validoValue (validoEn revisionSectionPattern ex_text_rt) = Some (str ''OCTUBRE 2024'')"
  "validoEn contaminantesSectionPattern ex_text_rt = None"
proof -
  show "map_option validoValue (validoEn revisionSectionPattern ex_text_rt) =
      Some (str ''OCTUBRE 2024'')"
    using ex_valido_match(2) by (simp add: validoEn_def ex_rt_sections(1))
  show "validoEn contaminantesSectionPattern ex_text_rt = None"
    by (simp add: validoEn_def seccion_def ex_rt_sections(2))
qed

theorem crt_section_cases_witness:
  "fixedFieldsValid ex_text_rt \<and>
   js_match revisionSectionPattern ex_text_rt \<noteq> None \<and>
   js_match contaminantesSectionPattern ex_text_rt = None \<and>
   map_option validoValue (validoEn revisionSectionPattern ex_text_rt) = Some (str ''OCTUBRE 2024'') \<and>
   (\<exists>row. procesarPDFCRT ex_file_rt = Inr row \<and>
      map_of row kValidoRT = Some (Some (str ''OCTUBRE 2024'')) \<and>
      map_of row kValidoCont = Some (Some []))"
proof -
  have f: "fixedFieldsValid ex_text_rt"
    unfolding ex_text_rt_def by (rule ex_fixed_valid)
  from ex_rt_valido(1) obtain v where v: "validoEn revisionSectionPattern ex_text_rt = Some v"
    and vv: "validoValue v = str ''OCTUBRE 2024''"
    by auto
  from v have r: "js_match revisionSectionPattern ex_text_rt \<noteq> None"
    by (auto simp: validoEn_def seccion_def split: option.splits)
  note c = ex_rt_sections(2)
  from crt_section_cases [OF f, of v "str ''rt.pdf''"] r c v
  have "\<exists>row. procesarPDFCRT \<lparr>file_name = str ''rt.pdf'', pdf_text = Inr ex_text_rt\<rparr> = Inr row \<and>
          map_of row kValidoRT = Some (Some (validoValue v)) \<and> validoValue v \<noteq> [] \<and>
          map_of row kValidoCont = Some (Some [])"
    by blast
  with f r c ex_rt_valido(1) vv show ?thesis
    by (auto simp: ex_file_rt_def)
qed

text \<open>
  The claim C1 as it was stated fails: the example has valid fixed fields and the first
  certificate only, and processing does not succeed, since the section holds no
  "V\'ALIDO HASTA".
\<close>

theorem crt_section_only_counterexample:
  "fixedFieldsValid ex_text_rt_bare \<and>
   js_test (RegExp tituloRevision True) ex_text_rt_bare \<and>
   js_match revisionSectionPattern ex_text_rt_bare \<noteq> None \<and>
   js_match contaminantesSectionPattern ex_text_rt_bare = None \<and>
   procesarPDFCRT ex_file_rt_bare = Inl (ProblemasEnDatos (str ''bare.pdf'') [FaltaValidoHasta])"
proof -
  have f: "fixedFieldsValid ex_text_rt_bare"
    unfolding ex_text_rt_bare_def by (rule ex_fixed_valid)
  from ex_rt_bare_sections(1) have r: "js_match revisionSectionPattern ex_text_rt_bare \<noteq> None"
    by (auto simp: seccion_def split: option.splits)
  then have t: "js_test (RegExp tituloRevision True) ex_text_rt_bare"
    unfolding seccion_presente by simp
  note c = ex_rt_bare_sections(2)
  have v: "validoEn revisionSectionPattern ex_text_rt_bare = None"
    "validoEn contaminantesSectionPattern ex_text_rt_bare = None"
    by (simp_all add: validoEn_def ex_rt_bare_sections(1) ex_valido_match(1))
       (simp add: seccion_def ex_rt_bare_sections(2))
  from procesar_cases [OF f, of "str ''bare.pdf''"] r v
  have "procesarPDFCRT ex_file_rt_bare = Inl (ProblemasEnDatos (str ''bare.pdf'') [FaltaValidoHasta])"
    by (simp add: ex_file_rt_bare_def)
  with f t r c show ?thesis by simp
qed


section \<open>The validation and the entry of the example\<close>

lemma ex_datos_simps:
  "ex_datos kFecha = Some (str ''10 OCTUBRE 2023'')"
  "ex_datos kPlanta = Some (str ''AB-01'')"
  "ex_datos kPlaca = Some (str ''ABCD12'')"
  "ex_datos kValidoRT = Some (str ''OCTUBRE 2024'')"
  "ex_datos kValidoCont = Some []"
  "ex_datos kFolio = Some (litFolio @ str ''12345'')"
  by (simp_all add: ex_datos_def keys_neq)

lemma ex_datos_required: "\<not> requiredBad ex_datos"
proof -
  have "requiredBad ex_datos = requiredBad (camposFijos ex_text_rt)"
    by (simp add: requiredBad_def requiredPatterns_def campoVacio_def ex_datos_simps
        ex_campos ex_text_rt_def del: js_test.simps)
  also have "\<dots> = (\<not> fixedFieldsValid ex_text_rt)"
    unfolding fixedFieldsValid_def required_errors_Nil by simp
  finally show ?thesis
    by (simp add: ex_text_rt_def ex_fixed_valid)
qed

lemma ex_mes: "is_mes (str ''OCTUBRE 2024'')"
  unfolding is_mes_def
  by (rule exI [of _ "str ''OCTUBRE''"], rule exI [of _ "str '' ''"], rule exI [of _ "str ''2024''"])
     (simp add: str_def isLetra_def isWhiteSpace_def isDigit_def)

lemma ex_datos_optional: "\<not> optionalBad ex_datos"
  using ex_mes
  by (simp add: optionalBad_def optionalPatterns_def campoVacio_def ex_datos_simps
      js_test_optional_iff del: js_test.simps)

theorem validation_throws_iff_witness:
  "\<not> requiredBad ex_datos \<and> \<not> optionalBad ex_datos \<and>
   \<not> campoVacio ex_datos kValidoRT \<and> campoVacio ex_datos kValidoCont \<and>
   bestEffortValidationCRT ex_datos (str ''rt.pdf'') = Inr ex_datos"
proof -
  have rt: "\<not> campoVacio ex_datos kValidoRT" and ct: "campoVacio ex_datos kValidoCont"
    by (simp_all add: campoVacio_def ex_datos_simps str_def)
  from validation_throws_iff [of ex_datos "str ''rt.pdf''"] ex_datos_required ex_datos_optional rt
  have "bestEffortValidationCRT ex_datos (str ''rt.pdf'') = Inr ex_datos"
    by blast
  with ex_datos_required ex_datos_optional rt ct show ?thesis by simp
qed

text \<open>
  C3. Every success entry of \<open>procesarPDFCRT\<close> has the seven keys of \<open>headers\<close>, the
  column list of \<open>generarExcel\<close>, in that order, each with a defined value; the
  "V\'alido Hasta" field of a certificate section that is absent from the text is there
  with the empty string.
\<close>

theorem success_entry_columns:
  assumes "procesarPDFCRT file = Inr row"
  shows "map fst row = headers \<and>
         list_all (\<lambda>(k, v). v \<noteq> None) row \<and>
         (\<exists>pdfTexto. pdf_text file = Inr pdfTexto \<and>
            (js_match revisionSectionPattern pdfTexto = None \<longrightarrow>
               map_of row kValidoRT = Some (Some [])) \<and>
            (js_match contaminantesSectionPattern pdfTexto = None \<longrightarrow>
               map_of row kValidoCont = Some (Some [])))"
proof -
  from assms obtain pdfTexto where tx: "pdf_text file = Inr pdfTexto"
    by (cases "pdf_text file") (simp_all add: procesarPDFCRT_def)
  have ex: "extraerDatosCRT pdfTexto =
     (if js_match revisionSectionPattern pdfTexto = None \<and>
         js_match contaminantesSectionPattern pdfTexto = None
      then Inl SinCertificado else Inr (datosDe pdfTexto))"
    unfolding extraerDatosCRT_cases datosDe_def ..
  from assms have row: "row = [(kNombrePDF, Some (file_name file)),
      (kFecha, Some (campo fechaPattern pdfTexto)),
      (kPlanta, Some (campo plantaPattern pdfTexto)),
      (kPlaca, Some (campo placaPattern pdfTexto)),
      (kValidoRT, Some (validoDe revisionSectionPattern pdfTexto)),
      (kValidoCont, Some (validoDe contaminantesSectionPattern pdfTexto)),
      (kFolio, Some (campo folioPattern pdfTexto))]"
    by (simp add: procesarPDFCRT_def tx ex bestEffortValidationCRT_def Let_def keys_neq
        split: if_splits)
  have absent: "validoDe p pdfTexto = []" if "js_match p pdfTexto = None" for p
    using that by (simp add: validoDe_def validoEn_def seccion_def)
  have c1: "map fst row = headers"
    by (simp add: row headers_def)
  have c2: "list_all (\<lambda>(k, v). v \<noteq> None) row"
    by (simp add: row)
  have c3: "map_of row kValidoRT = Some (Some [])"
    if "js_match revisionSectionPattern pdfTexto = None"
    by (simp add: row keys_neq absent [OF that])
  have c4: "map_of row kValidoCont = Some (Some [])"
    if "js_match contaminantesSectionPattern pdfTexto = None"
    by (simp add: row keys_neq absent [OF that])
  from c1 c2 show ?thesis
    by (simp add: c3 c4 tx)
qed

lemma ex_file_rt_row: "procesarPDFCRT ex_file_rt = Inr ex_row"
proof -
  have f: "fixedFieldsValid ex_text_rt"
    unfolding ex_text_rt_def by (rule ex_fixed_valid)
  from ex_rt_valido(1) obtain v where v: "validoEn revisionSectionPattern ex_text_rt = Some v"
    and vv: "validoValue v = str ''OCTUBRE 2024''"
    by auto
  from v have r: "js_match revisionSectionPattern ex_text_rt \<noteq> None"
    by (auto simp: validoEn_def seccion_def split: option.splits)
  have campos: "campo fechaPattern ex_text_rt = str ''10 OCTUBRE 2023''"
    "campo plantaPattern ex_text_rt = str ''AB-01''"
    "campo placaPattern ex_text_rt = str ''ABCD12''"
    "campo folioPattern ex_text_rt = litFolio @ str ''12345''"
    unfolding ex_text_rt_def by (rule ex_campos)+
  from procesar_cases [OF f, of "str ''rt.pdf''"] r v vv ex_rt_valido(2)
  show ?thesis
    by (simp add: ex_file_rt_def ex_row_def campos validoDe_def)
qed

theorem success_entry_columns_witness:
  "procesarPDFCRT ex_file_rt = Inr ex_row \<and>
   map fst ex_row = headers \<and>
   list_all (\<lambda>(k, v). v \<noteq> None) ex_row \<and>
   js_match contaminantesSectionPattern ex_text_rt = None \<and>
   map_of ex_row kValidoCont = Some (Some [])"
proof -
  have tx: "pdf_text ex_file_rt = Inr ex_text_rt"
    by (simp add: ex_file_rt_def)
  from success_entry_columns [OF ex_file_rt_row] tx ex_rt_sections(2)
  have "map fst ex_row = headers \<and> list_all (\<lambda>(k, v). v \<noteq> None) ex_row \<and>
      map_of ex_row kValidoCont = Some (Some [])"
    by auto
  with ex_file_rt_row ex_rt_sections(2) show ?thesis by simp
qed


end
